theory Spec2Isabelle
  imports Main "HOL-Library.Product_Lexorder" "HOL-Library.Multiset"
begin

section \<open>Values\<close>

text \<open>
  The program keeps its collection as the Python value that \<^verbatim>\<open>json.load\<close> returns:
  a list of dicts whose values are strings, lists, \<^verbatim>\<open>None\<close> and so on. A dict is an
  association list in insertion order; Python keeps its keys distinct, which is the
  invariant \<open>json_wf\<close> below. Floating-point numbers are not part of the model.
  A \<^typ>\<open>char\<close> stands for one code point below 256.
\<close>

datatype json =
    JNull
  | JBool bool
  | JInt int
  | is_JStr: JStr (un_JStr: string)
  | is_JArr: JArr (un_JArr: "json list")
  | is_JObj: JObj (un_JObj: "(string \<times> json) list")

text \<open>
  The exceptions of the program. \<open>NotModelled\<close> stands for input that leaves the model
  (a float literal, a code point from 256 on); \<open>OutOfFuel\<close> for the bound on the calls of
  the JSON reader, which is never reached.
\<close>

datatype error =
    AttributeError
  | KeyError
  | TypeError
  | ValueError
  | JSONDecodeError
  | FileNotFoundError
  | UnicodeDecodeError
  | NotModelled
  | OutOfFuel

text \<open>\<^verbatim>\<open>d.get(key, default)\<close> on a dict.\<close>

definition dict_get :: "(string \<times> json) list \<Rightarrow> string \<Rightarrow> json \<Rightarrow> json" where
  "dict_get kvs k dflt = (case map_of kvs k of None \<Rightarrow> dflt | Some v \<Rightarrow> v)"

fun json_wf :: "json \<Rightarrow> bool" where
  "json_wf (JArr xs) = list_all json_wf xs"
| "json_wf (JObj kvs) = (distinct (map fst kvs) \<and> list_all (\<lambda>kv. json_wf (snd kv)) kvs)"
| "json_wf _ = True"

section \<open>Strings\<close>

text \<open>\<^verbatim>\<open>s.split(sep)\<close> with a one-character separator, and \<^verbatim>\<open>sep.join(parts)\<close>.\<close>

fun str_split :: "char \<Rightarrow> string \<Rightarrow> string list" where
  "str_split sep [] = [[]]"
| "str_split sep (c # cs) =
     (if c = sep then [] # str_split sep cs
      else (case str_split sep cs of [] \<Rightarrow> [[c]] | t # ts \<Rightarrow> (c # t) # ts))"

fun str_join :: "string \<Rightarrow> string list \<Rightarrow> string" where
  "str_join sep [] = []"
| "str_join sep [t] = t"
| "str_join sep (t # u # ts) = t @ sep @ str_join sep (u # ts)"

text \<open>
  \<^verbatim>\<open>sep.join(x)\<close> for any value \<open>x\<close>: a list must hold strings only, a string is
  iterated by character, a dict by key, and the other values are not iterable.
\<close>

fun py_join :: "string \<Rightarrow> json \<Rightarrow> error + string" where
  "py_join sep (JArr xs) =
     (if list_all is_JStr xs then Inr (str_join sep (map un_JStr xs)) else Inl TypeError)"
| "py_join sep (JStr s) = Inr (str_join sep (map (\<lambda>c. [c]) s))"
| "py_join sep (JObj kvs) = Inr (str_join sep (map fst kvs))"
| "py_join sep _ = Inl TypeError"

section \<open>Schema validation\<close>

text \<open>
  The keywords of \<^verbatim>\<open>jsonschema\<close> that the schema of \<^verbatim>\<open>validation\<close> uses: \<^verbatim>\<open>type\<close>,
  \<^verbatim>\<open>properties\<close>, \<^verbatim>\<open>required\<close> and \<^verbatim>\<open>items\<close>. \<^verbatim>\<open>properties\<close> and \<^verbatim>\<open>required\<close>
  constrain objects only, \<^verbatim>\<open>items\<close> arrays only. A keyword the library does not know
  (here \<^verbatim>\<open>minitems\<close>, which is not \<^verbatim>\<open>minItems\<close>) is kept in \<open>other\<close> and ignored.
\<close>

datatype json_type = T_array | T_boolean | T_integer | T_null | T_number | T_object | T_string

datatype schema =
  Schema (ty: "json_type option") (properties: "(string \<times> schema) list")
    (required: "string list") (items: "schema option") (other: "(string \<times> json) list")

fun has_type :: "json_type \<Rightarrow> json \<Rightarrow> bool" where
  "has_type T_array v = is_JArr v"
| "has_type T_boolean v = (case v of JBool _ \<Rightarrow> True | _ \<Rightarrow> False)"
| "has_type T_integer v = (case v of JInt _ \<Rightarrow> True | _ \<Rightarrow> False)"
| "has_type T_null v = (v = JNull)"
| "has_type T_number v = (case v of JInt _ \<Rightarrow> True | _ \<Rightarrow> False)"
| "has_type T_object v = is_JObj v"
| "has_type T_string v = is_JStr v"

fun valid :: "schema \<Rightarrow> json \<Rightarrow> bool" where
  "valid (Schema t ps req it oth) v =
     ((case t of None \<Rightarrow> True | Some a \<Rightarrow> has_type a v) \<and>
      (case v of
         JObj kvs \<Rightarrow>
           list_all (\<lambda>(k, s). case map_of kvs k of None \<Rightarrow> True | Some x \<Rightarrow> valid s x) ps \<and>
           list_all (\<lambda>r. r \<in> set (map fst kvs)) req
       | JArr xs \<Rightarrow> (case it of None \<Rightarrow> True | Some s \<Rightarrow> list_all (valid s) xs)
       | _ \<Rightarrow> True))"

definition people_schema :: schema where
  "people_schema =
     Schema (Some T_array) [] []
       (Some (Schema (Some T_object)
          [(''surname'', Schema (Some T_string) [] [] None []),
           (''name'', Schema (Some T_string) [] [] None []),
           (''zodiac'', Schema (Some T_string) [] [] None []),
           (''birthday'',
              Schema (Some T_array) [] [] (Some (Schema (Some T_string) [] [] None []))
                [(''minitems'', JInt 3)])]
          [''surname'', ''name'', ''birthday''] None []))
       []"

text \<open>
  \<^verbatim>\<open>validation(instance)\<close>: \<^verbatim>\<open>True\<close> when \<^verbatim>\<open>validate\<close> raises no \<^verbatim>\<open>ValidationError\<close>,
  \<^verbatim>\<open>False\<close> (after printing the message) when it does.
\<close>

definition validation :: "json \<Rightarrow> bool" where
  "validation instance = valid people_schema instance"

text \<open>
  The document contract in the specification's words: an array whose elements are all
  objects with a string \<open>surname\<close>, a string \<open>name\<close>, a \<open>birthday\<close> that is an array of
  strings, and a \<open>zodiac\<close> that is a string when it is present.
\<close>

definition spec_person :: "json \<Rightarrow> bool" where
  "spec_person p =
     (case p of
        JObj kvs \<Rightarrow>
          (case map_of kvs ''surname'' of Some v \<Rightarrow> is_JStr v | None \<Rightarrow> False) \<and>
          (case map_of kvs ''name'' of Some v \<Rightarrow> is_JStr v | None \<Rightarrow> False) \<and>
          (case map_of kvs ''birthday'' of
             Some v \<Rightarrow> is_JArr v \<and> list_all is_JStr (un_JArr v) | None \<Rightarrow> False) \<and>
          (case map_of kvs ''zodiac'' of Some v \<Rightarrow> is_JStr v | None \<Rightarrow> True)
      | _ \<Rightarrow> False)"

definition spec_document :: "json \<Rightarrow> bool" where
  "spec_document d = (case d of JArr xs \<Rightarrow> list_all spec_person xs | _ \<Rightarrow> False)"

section \<open>Record operations\<close>

text \<open>
  \<^verbatim>\<open>add_person\<close> appends to the list it is given and returns that list; the model returns
  the list after the append. The optional \<^verbatim>\<open>--zodiac\<close> argument is \<^verbatim>\<open>None\<close> when it is
  not given on the command line.
\<close>

definition add_person ::
  "json list \<Rightarrow> string \<Rightarrow> string \<Rightarrow> string option \<Rightarrow> string \<Rightarrow> json list" where
  "add_person people surname name zodiac birthday =
     people @
     [JObj [(''surname'', JStr surname),
            (''name'', JStr name),
            (''zodiac'', (case zodiac of None \<Rightarrow> JNull | Some z \<Rightarrow> JStr z)),
            (''birthday'', JArr (map JStr (str_split CHR ''.'' birthday)))]]"

text \<open>
  \<^verbatim>\<open>select_people\<close>: the loop over \<^verbatim>\<open>people\<close> with its accumulator \<^verbatim>\<open>result\<close>.
  \<^verbatim>\<open>i.get\<close> exists on dicts only.
\<close>

fun select_loop :: "string \<Rightarrow> json list \<Rightarrow> json list \<Rightarrow> error + json list" where
  "select_loop surname [] result = Inr result"
| "select_loop surname (i # rest) result =
     (case i of
        JObj kvs \<Rightarrow>
          if dict_get kvs ''surname'' (JStr '''') = JStr surname
          then select_loop surname rest (result @ [i])
          else select_loop surname rest result
      | _ \<Rightarrow> Inl AttributeError)"

definition select_people :: "string \<Rightarrow> json list \<Rightarrow> error + json list" where
  "select_people surname people = select_loop surname people []"

section \<open>Dates\<close>

text \<open>
  \<^verbatim>\<open>datetime.strptime(s, "%d.%m.%Y")\<close>. The format becomes the regular expression
  \<^verbatim>\<open>(?P<d>3[0-1]|[1-2]\d|0[1-9]|[1-9]| [1-9])\.(?P<m>1[0-2]|0[1-9]|[1-9])\.(?P<Y>\d\d\d\d)\<close>,
  matched at the start of the text with backtracking; text left over after the match, or a
  day, month or year that is no calendar date, is a \<^verbatim>\<open>ValueError\<close>.

  A regular expression is the function that lists, in backtracking order, the ways it
  matches a prefix of the text: the matched prefix and the text after it.
\<close>

type_synonym rx = "string \<Rightarrow> (string \<times> string) list"

definition rx_class :: "string \<Rightarrow> rx" where
  "rx_class cs s = (case s of [] \<Rightarrow> [] | c # r \<Rightarrow> if c \<in> set cs then [([c], r)] else [])"

definition rx_seq :: "rx \<Rightarrow> rx \<Rightarrow> rx" where
  "rx_seq a b s = concat (map (\<lambda>(m1, r1). map (\<lambda>(m2, r2). (m1 @ m2, r2)) (b r1)) (a s))"

definition rx_alt :: "rx \<Rightarrow> rx \<Rightarrow> rx" where
  "rx_alt a b s = a s @ b s"

definition rx_digit :: rx where
  "rx_digit = rx_class ''0123456789''"

definition rx_d :: rx where
  "rx_d =
     rx_alt (rx_seq (rx_class ''3'') (rx_class ''01''))
    (rx_alt (rx_seq (rx_class ''12'') rx_digit)
    (rx_alt (rx_seq (rx_class ''0'') (rx_class ''123456789''))
    (rx_alt (rx_class ''123456789'')
            (rx_seq (rx_class '' '') (rx_class ''123456789'')))))"

definition rx_m :: rx where
  "rx_m =
     rx_alt (rx_seq (rx_class ''1'') (rx_class ''012''))
    (rx_alt (rx_seq (rx_class ''0'') (rx_class ''123456789''))
            (rx_class ''123456789''))"

definition rx_Y :: rx where
  "rx_Y = rx_seq rx_digit (rx_seq rx_digit (rx_seq rx_digit rx_digit))"

text \<open>The matches of the whole pattern: the three groups and the text left over.\<close>

definition format_regex :: "string \<Rightarrow> (string \<times> string \<times> string \<times> string) list" where
  "format_regex s =
     concat (map (\<lambda>(d, r1).
       concat (map (\<lambda>(_, r2).
         concat (map (\<lambda>(m, r3).
           concat (map (\<lambda>(_, r4).
             map (\<lambda>(y, r5). (d, m, y, r5)) (rx_Y r4))
           (rx_class ''.'' r3)))
         (rx_m r2)))
       (rx_class ''.'' r1)))
     (rx_d s))"

text \<open>\<^verbatim>\<open>int(s)\<close> on a group of the match: decimal digits, after an optional blank.\<close>

definition digit_val :: "char \<Rightarrow> nat" where
  "digit_val c = of_char c - 48"

definition py_int :: "string \<Rightarrow> nat" where
  "py_int s = foldl (\<lambda>n c. 10 * n + digit_val c) 0 (dropWhile (\<lambda>c. c = CHR '' '') s)"

text \<open>A \<^verbatim>\<open>datetime\<close> at midnight: year, month and day, compared in that order.\<close>

type_synonym datetime = "nat \<times> nat \<times> nat"

definition is_leap :: "nat \<Rightarrow> bool" where
  "is_leap y = (y mod 4 = 0 \<and> (y mod 100 \<noteq> 0 \<or> y mod 400 = 0))"

definition days_in_month :: "nat \<Rightarrow> nat \<Rightarrow> nat" where
  "days_in_month y m =
     (if m = 2 then (if is_leap y then 29 else 28)
      else if m \<in> {4, 6, 9, 11} then 30 else 31)"

definition make_datetime :: "nat \<Rightarrow> nat \<Rightarrow> nat \<Rightarrow> error + datetime" where
  "make_datetime y m d =
     (if 1 \<le> y \<and> y \<le> 9999 \<and> 1 \<le> m \<and> m \<le> 12 \<and> 1 \<le> d \<and> d \<le> days_in_month y m
      then Inr (y, m, d) else Inl ValueError)"

definition strptime :: "string \<Rightarrow> error + datetime" where
  "strptime data_string =
     (case format_regex data_string of
        [] \<Rightarrow> Inl ValueError
      | (d, m, y, rest) # _ \<Rightarrow>
          if rest \<noteq> [] then Inl ValueError
          else make_datetime (py_int y) (py_int m) (py_int d))"

section \<open>Sorting by birthday\<close>

text \<open>
  The key of the sort in \<^verbatim>\<open>main\<close>:
  \<^verbatim>\<open>lambda x: datetime.strptime(".".join(x["birthday"]), "%d.%m.%Y")\<close>.
  Subscripting a value that is not a dict with a string is a \<^verbatim>\<open>TypeError\<close>, a dict
  without the key a \<^verbatim>\<open>KeyError\<close>.
\<close>

definition birthday_key :: "json \<Rightarrow> error + datetime" where
  "birthday_key x =
     (case x of
        JObj kvs \<Rightarrow>
          (case map_of kvs ''birthday'' of
             None \<Rightarrow> Inl KeyError
           | Some b \<Rightarrow> (case py_join ''.'' b of Inl e \<Rightarrow> Inl e | Inr s \<Rightarrow> strptime s))
      | _ \<Rightarrow> Inl TypeError)"

text \<open>
  \<^verbatim>\<open>list.sort(key=f)\<close> first computes the key of every element, from left to right, and
  an exception of \<open>f\<close> ends the sort; then it sorts the elements by their keys, keeping
  elements with equal keys in their order.
\<close>

fun keys_of :: "('a \<Rightarrow> error + 'k) \<Rightarrow> 'a list \<Rightarrow> error + 'k list" where
  "keys_of f [] = Inr []"
| "keys_of f (x # xs) =
     (case f x of
        Inl e \<Rightarrow> Inl e
      | Inr k \<Rightarrow> (case keys_of f xs of Inl e \<Rightarrow> Inl e | Inr ks \<Rightarrow> Inr (k # ks)))"

definition list_sort :: "('a \<Rightarrow> error + 'k::linorder) \<Rightarrow> 'a list \<Rightarrow> error + 'a list" where
  "list_sort f xs =
     (case keys_of f xs of
        Inl e \<Rightarrow> Inl e
      | Inr ks \<Rightarrow> Inr (map snd (sort_key fst (zip ks xs))))"

definition sort_people :: "json list \<Rightarrow> error + json list" where
  "sort_people people = list_sort birthday_key people"

text \<open>The date of a record, for records whose birthday parses.\<close>

definition has_date :: "json \<Rightarrow> bool" where
  "has_date p = (case birthday_key p of Inr _ \<Rightarrow> True | Inl _ \<Rightarrow> False)"

definition date_of :: "json \<Rightarrow> datetime" where
  "date_of p = (case birthday_key p of Inr d \<Rightarrow> d | Inl _ \<Rightarrow> (0, 0, 0))"

text \<open>The records of a collection that carry a given surname, in the specification's words.\<close>

definition surname_is :: "string \<Rightarrow> json \<Rightarrow> bool" where
  "surname_is s p =
     (case p of JObj kvs \<Rightarrow> map_of kvs ''surname'' = Some (JStr s) | _ \<Rightarrow> False)"

text \<open>A person record, as far as selecting goes: a dict with the key \<open>surname\<close>.\<close>

definition has_surname :: "json \<Rightarrow> bool" where
  "has_surname p = (case p of JObj kvs \<Rightarrow> map_of kvs ''surname'' \<noteq> None | _ \<Rightarrow> False)"

section \<open>JSON text\<close>

text \<open>
  \<^verbatim>\<open>json.dump(people_list, f, ensure_ascii=False, indent=4)\<close> and \<^verbatim>\<open>json.load(f)\<close> of the
  standard library, as functions between values and text.
\<close>

definition quote :: char where
  "quote = CHR 0x22"

definition backslash :: char where
  "backslash = CHR 0x5C"

definition newline :: char where
  "newline = CHR 0x0A"

subsection \<open>Writing\<close>

definition hex_digit :: "nat \<Rightarrow> char" where
  "hex_digit n = (if n < 10 then char_of (48 + n) else char_of (87 + n))"

text \<open>
  With \<^verbatim>\<open>ensure_ascii=False\<close> only the backslash, the double quote and the control
  characters below \<^verbatim>\<open>0x20\<close> are escaped; every other character is written as it is.
\<close>

definition escape_char :: "char \<Rightarrow> string" where
  "escape_char c =
     (if c = backslash then [backslash, backslash]
      else if c = quote then [backslash, quote]
      else if c = CHR 0x08 then [backslash, CHR ''b'']
      else if c = CHR 0x0C then [backslash, CHR ''f'']
      else if c = newline then [backslash, CHR ''n'']
      else if c = CHR 0x0D then [backslash, CHR ''r'']
      else if c = CHR 0x09 then [backslash, CHR ''t'']
      else if of_char c < (32::nat)
        then [backslash, CHR ''u'', CHR ''0'', CHR ''0'',
              hex_digit (of_char c div 16), hex_digit (of_char c mod 16)]
      else [c])"

definition encode_basestring :: "string \<Rightarrow> string" where
  "encode_basestring s = quote # concat (map escape_char s) @ [quote]"

function str_of_nat :: "nat \<Rightarrow> string" where
  "str_of_nat n =
     (if n < 10 then [char_of (48 + n)]
      else str_of_nat (n div 10) @ [char_of (48 + n mod 10)])"
  by pat_completeness auto
termination
  by (relation "measure id") auto

definition int_repr :: "int \<Rightarrow> string" where
  "int_repr i = (if i < 0 then CHR ''-'' # str_of_nat (nat (- i)) else str_of_nat (nat i))"

definition newline_indent :: "nat \<Rightarrow> string" where
  "newline_indent level = newline # replicate (4 * level) CHR '' ''"

text \<open>
  \<^verbatim>\<open>_iterencode\<close> at an indentation level: an empty list or dict is written without a
  line break, the items of a non-empty one each on a line of their own.
\<close>

fun iterencode :: "nat \<Rightarrow> json \<Rightarrow> string" where
  "iterencode level JNull = ''null''"
| "iterencode level (JBool b) = (if b then ''true'' else ''false'')"
| "iterencode level (JInt i) = int_repr i"
| "iterencode level (JStr s) = encode_basestring s"
| "iterencode level (JArr xs) =
     (if xs = [] then ''[]''
      else ''['' @ newline_indent (Suc level) @
           str_join ('','' @ newline_indent (Suc level)) (map (iterencode (Suc level)) xs) @
           newline_indent level @ '']'')"
| "iterencode level (JObj kvs) =
     (if kvs = [] then ''{}''
      else ''{'' @ newline_indent (Suc level) @
           str_join ('','' @ newline_indent (Suc level))
             (map (\<lambda>kv. encode_basestring (fst kv) @ '': '' @ iterencode (Suc level) (snd kv))
                kvs) @
           newline_indent level @ ''}'')"

definition json_dumps :: "json \<Rightarrow> string" where
  "json_dumps obj = iterencode 0 obj"

subsection \<open>Reading\<close>

definition is_digit :: "char \<Rightarrow> bool" where
  "is_digit c = (c \<in> set ''0123456789'')"

definition is_ws :: "char \<Rightarrow> bool" where
  "is_ws c = (c = CHR '' '' \<or> c = CHR 0x09 \<or> c = newline \<or> c = CHR 0x0D)"

definition skip_ws :: "string \<Rightarrow> string" where
  "skip_ws s = dropWhile is_ws s"

definition hex_val :: "char \<Rightarrow> nat option" where
  "hex_val c =
     (let n = of_char c in
      if 48 \<le> n \<and> n \<le> 57 then Some (n - 48)
      else if 97 \<le> n \<and> n \<le> 102 then Some (n - 87)
      else if 65 \<le> n \<and> n \<le> 70 then Some (n - 55)
      else None)"

definition unescape :: "char \<Rightarrow> char option" where
  "unescape e =
     (if e = quote then Some quote
      else if e = backslash then Some backslash
      else if e = CHR ''/'' then Some CHR ''/''
      else if e = CHR ''b'' then Some (CHR 0x08)
      else if e = CHR ''f'' then Some (CHR 0x0C)
      else if e = CHR ''n'' then Some newline
      else if e = CHR ''r'' then Some (CHR 0x0D)
      else if e = CHR ''t'' then Some (CHR 0x09)
      else None)"

text \<open>
  \<^verbatim>\<open>scanstring\<close>, from the character after the opening quote: the decoded string and the
  text after the closing quote. A control character inside the string is an error. A
  \<^verbatim>\<open>\uXXXX\<close> escape of a code point from 256 on leaves the model.
\<close>

fun scanstring :: "string \<Rightarrow> error + string \<times> string" where
  "scanstring [] = Inl JSONDecodeError"
| "scanstring (c # r) =
     (if c = quote then Inr ([], r)
      else if c = backslash then
        (case r of
           [] \<Rightarrow> Inl JSONDecodeError
         | esc # r1 \<Rightarrow>
             if esc = CHR ''u'' then
               (case r1 of
                  a # b # x # y # r2 \<Rightarrow>
                    (case (hex_val a, hex_val b, hex_val x, hex_val y) of
                       (Some h3, Some h2, Some h1, Some h0) \<Rightarrow>
                         (let uni = ((h3 * 16 + h2) * 16 + h1) * 16 + h0
                          in if 256 \<le> uni then Inl NotModelled
                             else (case scanstring r2 of
                                     Inl e \<Rightarrow> Inl e
                                   | Inr (t, rest) \<Rightarrow> Inr (char_of uni # t, rest)))
                     | _ \<Rightarrow> Inl JSONDecodeError)
                | _ \<Rightarrow> Inl JSONDecodeError)
             else
               (case unescape esc of
                  None \<Rightarrow> Inl JSONDecodeError
                | Some ch \<Rightarrow>
                    (case scanstring r1 of
                       Inl e \<Rightarrow> Inl e
                     | Inr (t, rest) \<Rightarrow> Inr (ch # t, rest))))
      else if of_char c < (32::nat) then Inl JSONDecodeError
      else (case scanstring r of Inl e \<Rightarrow> Inl e | Inr (t, rest) \<Rightarrow> Inr (c # t, rest)))"

text \<open>
  The integer part of \<^verbatim>\<open>NUMBER_RE\<close>, \<^verbatim>\<open>-?(?:0|[1-9]\d*)\<close>: the matched text and the text
  after it. A fraction or an exponent after it makes the literal a float.
\<close>

definition scan_integer :: "string \<Rightarrow> (string \<times> string) option" where
  "scan_integer s =
     (let sign = takeWhile (\<lambda>c. c = CHR ''-'') (take 1 s); s1 = drop (length sign) s
      in case s1 of
           [] \<Rightarrow> None
         | c # r \<Rightarrow>
             if c = CHR ''0'' then Some (sign @ [c], r)
             else if c \<in> set ''123456789''
               then Some (sign @ c # takeWhile is_digit r, dropWhile is_digit r)
             else None)"

definition has_frac :: "string \<Rightarrow> bool" where
  "has_frac r = (case r of c # d # _ \<Rightarrow> c = CHR ''.'' \<and> is_digit d | _ \<Rightarrow> False)"

definition has_exp :: "string \<Rightarrow> bool" where
  "has_exp r =
     (case r of
        e # c # r1 \<Rightarrow>
          e \<in> set ''eE'' \<and>
          (is_digit c \<or> (c \<in> set ''-+'' \<and> (case r1 of d # _ \<Rightarrow> is_digit d | [] \<Rightarrow> False)))
      | _ \<Rightarrow> False)"

definition parse_int :: "string \<Rightarrow> int" where
  "parse_int s =
     (case s of
        [] \<Rightarrow> 0
      | c # ds \<Rightarrow> if c = CHR ''-'' then - int (py_int ds) else int (py_int s))"

text \<open>\<^verbatim>\<open>dict(pairs)\<close>: a later pair replaces the value of an earlier one with the same key.\<close>

fun dict_set :: "(string \<times> json) list \<Rightarrow> string \<Rightarrow> json \<Rightarrow> (string \<times> json) list" where
  "dict_set [] k v = [(k, v)]"
| "dict_set ((k', v') # kvs) k v =
     (if k' = k then (k, v) # kvs else (k', v') # dict_set kvs k v)"

definition py_dict :: "(string \<times> json) list \<Rightarrow> (string \<times> json) list" where
  "py_dict pairs = foldl (\<lambda>d kv. dict_set d (fst kv) (snd kv)) [] pairs"

text \<open>
  \<^verbatim>\<open>scan_once\<close> with the loops of \<^verbatim>\<open>JSONArray\<close> (from the first element) and of
  \<^verbatim>\<open>JSONObject\<close> (from the character after the opening quote of a key). The first
  argument bounds the number of calls; \<open>json_loads\<close> passes a bound that is never
  reached (\<open>json_loads_fuel\<close> below).
\<close>

fun scan_once :: "nat \<Rightarrow> string \<Rightarrow> error + json \<times> string"
  and JSONArray_loop :: "nat \<Rightarrow> string \<Rightarrow> error + json list \<times> string"
  and JSONObject_loop :: "nat \<Rightarrow> string \<Rightarrow> error + (string \<times> json) list \<times> string"
where
  "scan_once 0 s = Inl OutOfFuel"
| "scan_once (Suc n) s =
     (case s of
        [] \<Rightarrow> Inl JSONDecodeError
      | c # r \<Rightarrow>
          if c = quote then
            (case scanstring r of Inl e \<Rightarrow> Inl e | Inr (t, r1) \<Rightarrow> Inr (JStr t, r1))
          else if c = CHR ''{'' then
            (case skip_ws r of
               [] \<Rightarrow> Inl JSONDecodeError
             | d # r1 \<Rightarrow>
                 if d = CHR ''}'' then Inr (JObj [], r1)
                 else if d = quote then
                   (case JSONObject_loop n r1 of
                      Inl e \<Rightarrow> Inl e
                    | Inr (pairs, r2) \<Rightarrow> Inr (JObj (py_dict pairs), r2))
                 else Inl JSONDecodeError)
          else if c = CHR ''['' then
            (case skip_ws r of
               [] \<Rightarrow> Inl JSONDecodeError
             | d # r1 \<Rightarrow>
                 if d = CHR '']'' then Inr (JArr [], r1)
                 else
                   (case JSONArray_loop n (d # r1) of
                      Inl e \<Rightarrow> Inl e
                    | Inr (values, r2) \<Rightarrow> Inr (JArr values, r2)))
          else if take 4 s = ''null'' then Inr (JNull, drop 4 s)
          else if take 4 s = ''true'' then Inr (JBool True, drop 4 s)
          else if take 5 s = ''false'' then Inr (JBool False, drop 5 s)
          else
            (case scan_integer s of
               Some (integer, r1) \<Rightarrow>
                 if has_frac r1 \<or> has_exp r1 then Inl NotModelled
                 else Inr (JInt (parse_int integer), r1)
             | None \<Rightarrow>
                 if take 3 s = ''NaN'' \<or> take 8 s = ''Infinity'' \<or> take 9 s = ''-Infinity''
                 then Inl NotModelled
                 else Inl JSONDecodeError))"
| "JSONArray_loop 0 s = Inl OutOfFuel"
| "JSONArray_loop (Suc n) s =
     (case scan_once n s of
        Inl e \<Rightarrow> Inl e
      | Inr (value, r) \<Rightarrow>
          (case skip_ws r of
             [] \<Rightarrow> Inl JSONDecodeError
           | c # r1 \<Rightarrow>
               if c = CHR '']'' then Inr ([value], r1)
               else if c \<noteq> CHR '','' then Inl JSONDecodeError
               else
                 (case JSONArray_loop n (skip_ws r1) of
                    Inl e \<Rightarrow> Inl e
                  | Inr (values, r2) \<Rightarrow> Inr (value # values, r2))))"
| "JSONObject_loop 0 s = Inl OutOfFuel"
| "JSONObject_loop (Suc n) s =
     (case scanstring s of
        Inl e \<Rightarrow> Inl e
      | Inr (key, r) \<Rightarrow>
          (case skip_ws r of
             [] \<Rightarrow> Inl JSONDecodeError
           | c # r1 \<Rightarrow>
               if c \<noteq> CHR '':'' then Inl JSONDecodeError
               else
                 (case scan_once n (skip_ws r1) of
                    Inl e \<Rightarrow> Inl e
                  | Inr (value, r2) \<Rightarrow>
                      (case skip_ws r2 of
                         [] \<Rightarrow> Inl JSONDecodeError
                       | d # r3 \<Rightarrow>
                           if d = CHR ''}'' then Inr ([(key, value)], r3)
                           else if d \<noteq> CHR '','' then Inl JSONDecodeError
                           else
                             (case skip_ws r3 of
                                [] \<Rightarrow> Inl JSONDecodeError
                              | q # r4 \<Rightarrow>
                                  if q \<noteq> quote then Inl JSONDecodeError
                                  else
                                    (case JSONObject_loop n r4 of
                                       Inl e \<Rightarrow> Inl e
                                     | Inr (pairs, r5) \<Rightarrow>
                                         Inr ((key, value) # pairs, r5)))))))"

text \<open>
  \<^verbatim>\<open>JSONDecoder.decode\<close>: blanks, one value, blanks, and nothing more.
\<close>

definition json_loads :: "string \<Rightarrow> error + json" where
  "json_loads s =
     (case scan_once (2 * length s + 1) (skip_ws s) of
        Inl e \<Rightarrow> Inl e
      | Inr (obj, r) \<Rightarrow> if skip_ws r = [] then Inr obj else Inl JSONDecodeError)"

section \<open>Files\<close>

text \<open>
  A file holds bytes. \<^verbatim>\<open>save_people\<close> opens its file with \<^verbatim>\<open>encoding="utf-8"\<close>;
  \<^verbatim>\<open>load_people\<close> opens its file without an encoding, which is then the preferred
  encoding of the platform. Of the encodings a platform may prefer the model has UTF-8
  and ISO 8859-1, in which every byte is the code point of the same number. The
  translation of line ends in text mode is left out: it only changes blanks between the
  tokens of the JSON text.
\<close>

datatype encoding = UTF_8 | Latin_1

definition utf8_encode_char :: "char \<Rightarrow> char list" where
  "utf8_encode_char c =
     (let n = of_char c :: nat
      in if n < 128 then [c] else [char_of (192 + n div 64), char_of (128 + n mod 64)])"

definition utf8_encode :: "string \<Rightarrow> char list" where
  "utf8_encode s = concat (map utf8_encode_char s)"

text \<open>
  Decoding UTF-8: a byte below 128 is itself, a lead byte from 194 to 223 takes one
  continuation byte; the longer sequences, and the two-byte ones from lead byte 196 on,
  are code points outside the model.
\<close>

fun utf8_decode :: "char list \<Rightarrow> error + string" where
  "utf8_decode [] = Inr []"
| "utf8_decode (b # r) =
     (if of_char b < (128::nat) then
        (case utf8_decode r of Inl e \<Rightarrow> Inl e | Inr t \<Rightarrow> Inr (b # t))
      else if (194::nat) \<le> of_char b \<and> of_char b < (224::nat) then
        (case r of
           [] \<Rightarrow> Inl UnicodeDecodeError
         | b2 # r2 \<Rightarrow>
             if (128::nat) \<le> of_char b2 \<and> of_char b2 < (192::nat) then
               (if of_char b < (196::nat) then
                  (case utf8_decode r2 of
                     Inl e \<Rightarrow> Inl e
                   | Inr t \<Rightarrow>
                       Inr (char_of ((of_char b - 192) * 64 + (of_char b2 - 128) :: nat) # t))
                else Inl NotModelled)
             else Inl UnicodeDecodeError)
      else if (224::nat) \<le> of_char b \<and> of_char b < (245::nat) then Inl NotModelled
      else Inl UnicodeDecodeError)"

definition decode_text :: "encoding \<Rightarrow> char list \<Rightarrow> error + string" where
  "decode_text enc bytes = (case enc of UTF_8 \<Rightarrow> utf8_decode bytes | Latin_1 \<Rightarrow> Inr bytes)"

text \<open>
  The environment of a run: the home directory of the user, the working directory of the
  process and the preferred encoding. The world: the files by absolute path, the paths
  written so far, and what was printed.
\<close>

record env =
  home :: string
  cwd :: string
  encoding :: encoding

datatype printed =
    Empty_list
  | Table "(nat \<times> json \<times> json \<times> json \<times> string) list"

record world =
  files :: "string \<rightharpoonup> char list"
  writes :: "string list"
  stdout :: "printed list"

text \<open>
  \<^verbatim>\<open>base / name\<close> of \<^verbatim>\<open>pathlib\<close>, which is also how the system resolves the name given
  to \<^verbatim>\<open>open\<close> against the working directory: an absolute name stays as it is.
\<close>

definition path_join :: "string \<Rightarrow> string \<Rightarrow> string" where
  "path_join base name =
     (case name of
        [] \<Rightarrow> base @ ''/'' @ name
      | c # _ \<Rightarrow> if c = CHR ''/'' then name else base @ ''/'' @ name)"

definition load_people :: "env \<Rightarrow> world \<Rightarrow> string \<Rightarrow> error + json option" where
  "load_people e w file_name =
     (case files w (path_join (cwd e) file_name) of
        None \<Rightarrow> Inl FileNotFoundError
      | Some bytes \<Rightarrow>
          (case decode_text (encoding e) bytes of
             Inl err \<Rightarrow> Inl err
           | Inr text \<Rightarrow>
               (case json_loads text of
                  Inl err \<Rightarrow> Inl err
                | Inr people \<Rightarrow> if validation people then Inr (Some people) else Inr None)))"

definition save_people :: "env \<Rightarrow> world \<Rightarrow> string \<Rightarrow> json \<Rightarrow> world" where
  "save_people e w file_name people_list =
     w\<lparr>files := (files w)(path_join (cwd e) file_name \<mapsto> utf8_encode (json_dumps people_list)),
       writes := writes w @ [path_join (cwd e) file_name]\<rparr>"

section \<open>Display\<close>

text \<open>
  \<^verbatim>\<open>display_people\<close> prints a table with one numbered row per person, or a notice that
  the list is empty. The model keeps the values of a row and leaves out the layout.
  A value formatted with a width must be a string or a number.
\<close>

definition format_field :: "json \<Rightarrow> error + json" where
  "format_field v =
     (case v of
        JNull \<Rightarrow> Inl TypeError
      | JArr _ \<Rightarrow> Inl TypeError
      | JObj _ \<Rightarrow> Inl TypeError
      | _ \<Rightarrow> Inr v)"

definition display_row :: "nat \<Rightarrow> json \<Rightarrow> error + nat \<times> json \<times> json \<times> json \<times> string" where
  "display_row idx person =
     (case person of
        JObj kvs \<Rightarrow>
          (case py_join ''.'' (dict_get kvs ''birthday'' (JStr [])) of
             Inl e \<Rightarrow> Inl e
           | Inr birthday \<Rightarrow>
               (case format_field (dict_get kvs ''surname'' (JStr [])) of
                  Inl e \<Rightarrow> Inl e
                | Inr surname \<Rightarrow>
                    (case format_field (dict_get kvs ''name'' (JStr [])) of
                       Inl e \<Rightarrow> Inl e
                     | Inr name \<Rightarrow>
                         (case format_field (dict_get kvs ''zodiac'' (JStr [])) of
                            Inl e \<Rightarrow> Inl e
                          | Inr zodiac \<Rightarrow> Inr (idx, surname, name, zodiac, birthday)))))
      | _ \<Rightarrow> Inl AttributeError)"

fun display_rows ::
  "nat \<Rightarrow> json list \<Rightarrow> error + (nat \<times> json \<times> json \<times> json \<times> string) list" where
  "display_rows idx [] = Inr []"
| "display_rows idx (person # rest) =
     (case display_row idx person of
        Inl e \<Rightarrow> Inl e
      | Inr row \<Rightarrow>
          (case display_rows (Suc idx) rest of
             Inl e \<Rightarrow> Inl e
           | Inr rows \<Rightarrow> Inr (row # rows)))"

definition display_people :: "json list \<Rightarrow> error + printed" where
  "display_people people =
     (if people \<noteq> [] then
        (case display_rows 1 people of Inl e \<Rightarrow> Inl e | Inr rows \<Rightarrow> Inr (Table rows))
      else Inr Empty_list)"

section \<open>The program\<close>

text \<open>
  The parsed command line. Without a subcommand the arguments have no \<^verbatim>\<open>filename\<close>, and
  reading it is an \<^verbatim>\<open>AttributeError\<close>.
\<close>

datatype args =
    is_Add: Add string string string "string option" string
  | Display string
  | Select string string
  | No_command

fun filename :: "args \<Rightarrow> string option" where
  "filename (Add f surname name zodiac birthday) = Some f"
| "filename (Display f) = Some f"
| "filename (Select f surname) = Some f"
| "filename No_command = None"

text \<open>
  The \<^verbatim>\<open>match\<close> statement of \<^verbatim>\<open>main\<close>: the collection, the flag \<^verbatim>\<open>is_dirty\<close> and the
  world after it.
\<close>

definition run_command ::
  "args \<Rightarrow> json list \<Rightarrow> world \<Rightarrow> error + json list \<times> bool \<times> world" where
  "run_command a people w =
     (case a of
        Add f surname name zodiac birthday \<Rightarrow>
          (case sort_people (add_person people surname name zodiac birthday) of
             Inl e \<Rightarrow> Inl e
           | Inr ordered \<Rightarrow> Inr (ordered, True, w))
      | Select f surname \<Rightarrow>
          (case select_people surname people of
             Inl e \<Rightarrow> Inl e
           | Inr selected \<Rightarrow>
               (case display_people selected of
                  Inl e \<Rightarrow> Inl e
                | Inr out \<Rightarrow> Inr (people, False, w\<lparr>stdout := stdout w @ [out]\<rparr>)))
      | Display f \<Rightarrow>
          (case display_people people of
             Inl e \<Rightarrow> Inl e
           | Inr out \<Rightarrow> Inr (people, False, w\<lparr>stdout := stdout w @ [out]\<rparr>))
      | No_command \<Rightarrow> Inr (people, False, w))"

text \<open>
  The collection \<^verbatim>\<open>main\<close> starts from: the file is looked for under the home directory
  (\<^verbatim>\<open>home_path.exists()\<close>) and read by \<^verbatim>\<open>load_people(args.filename)\<close>; \<^verbatim>\<open>None\<close> becomes
  the empty list. A loaded document passed \<open>validation\<close>, so it is an array.
\<close>

definition initial_people :: "env \<Rightarrow> world \<Rightarrow> string \<Rightarrow> error + json list" where
  "initial_people e w file_name =
     (case (if files w (path_join (home e) file_name) \<noteq> None
            then load_people e w file_name else Inr None) of
        Inl err \<Rightarrow> Inl err
      | Inr None \<Rightarrow> Inr []
      | Inr (Some people) \<Rightarrow> Inr (un_JArr people))"

text \<open>
  \<^verbatim>\<open>main\<close> after the command line is parsed: the exception that ended the run, if any,
  and the world at the end.
\<close>

definition main :: "env \<Rightarrow> args \<Rightarrow> world \<Rightarrow> error option \<times> world" where
  "main e a w =
     (case filename a of
        None \<Rightarrow> (Some AttributeError, w)
      | Some file_name \<Rightarrow>
          (case initial_people e w file_name of
             Inl err \<Rightarrow> (Some err, w)
           | Inr people \<Rightarrow>
               (case run_command a people w of
                  Inl err \<Rightarrow> (Some err, w)
                | Inr (people', is_dirty, w') \<Rightarrow>
                    if is_dirty
                    then (None, save_people e w' (path_join (home e) file_name) (JArr people'))
                    else (None, w'))))"

section \<open>What is read back\<close>

text \<open>
  The text after a value that \<open>json_dumps\<close> wrote: the end, a comma or a line break.
\<close>

definition ends_value :: "string \<Rightarrow> bool" where
  "ends_value rest = (case rest of [] \<Rightarrow> True | c # _ \<Rightarrow> c = CHR '','' \<or> c = newline)"

text \<open>
  The text that comes out of the bytes of a text written as UTF-8 when they are decoded
  in the preferred encoding, and a value with every string and key so re-read.
\<close>

definition reread :: "encoding \<Rightarrow> string \<Rightarrow> string" where
  "reread enc s = (case enc of UTF_8 \<Rightarrow> s | Latin_1 \<Rightarrow> utf8_encode s)"

fun jmap :: "(string \<Rightarrow> string) \<Rightarrow> json \<Rightarrow> json" where
  "jmap f (JStr s) = JStr (f s)"
| "jmap f (JArr xs) = JArr (map (jmap f) xs)"
| "jmap f (JObj kvs) = JObj (map (\<lambda>kv. (f (fst kv), jmap f (snd kv))) kvs)"
| "jmap f v = v"

declare str_of_nat.simps [simp del]

section \<open>Schema validation is the document contract\<close>

lemma valid_string_schema: "valid (Schema (Some T_string) [] [] None oth) v = is_JStr v"
  by (cases v) simp_all

lemma valid_string_array:
  "valid (Schema (Some T_array) [] [] (Some (Schema (Some T_string) [] [] None [])) oth) v =
     (is_JArr v \<and> list_all is_JStr (un_JArr v))"
  by (cases v) (simp_all add: valid_string_schema[abs_def] list_all_iff)

lemma valid_object_schema:
  "valid (Schema (Some T_object) ps req None oth) (JObj kvs) =
     (list_all (\<lambda>(k, s). case map_of kvs k of None \<Rightarrow> True | Some x \<Rightarrow> valid s x) ps \<and>
      list_all (\<lambda>r. map_of kvs r \<noteq> None) req)"
  by (simp add: map_of_eq_None_iff list_all_iff)

lemma valid_person_schema:
  "valid (Schema (Some T_object)
          [(''surname'', Schema (Some T_string) [] [] None []),
           (''name'', Schema (Some T_string) [] [] None []),
           (''zodiac'', Schema (Some T_string) [] [] None []),
           (''birthday'',
              Schema (Some T_array) [] [] (Some (Schema (Some T_string) [] [] None []))
                [(''minitems'', JInt 3)])]
          [''surname'', ''name'', ''birthday''] None []) p = spec_person p"
proof (cases p)
  case (JObj kvs)
  show ?thesis
    unfolding JObj spec_person_def
    by (simp add: valid_object_schema valid_string_array valid_string_schema del: valid.simps
          split: option.splits) blast
qed (simp_all add: spec_person_def)

lemma valid_array_schema:
  "valid (Schema (Some T_array) [] [] (Some s) []) d =
     (case d of JArr xs \<Rightarrow> list_all (valid s) xs | _ \<Rightarrow> False)"
  by (cases d) simp_all

lemma validation_spec: "validation d = spec_document d"
  unfolding validation_def people_schema_def spec_document_def valid_array_schema
  by (simp add: valid_person_schema[abs_def] del: valid.simps cong: json.case_cong)

lemma validation_array: "validation (JArr xs) = list_all spec_person xs"
  by (simp add: validation_spec spec_document_def)

text \<open>
  C2. \<^verbatim>\<open>validation\<close> returns true exactly for the documents of the contract: an array
  whose elements are all objects with a string \<open>surname\<close>, a string \<open>name\<close>, a
  \<open>birthday\<close> that is an array of strings and, when \<open>zodiac\<close> is present, a string
  \<open>zodiac\<close>. An element without one of the three required keys, or with a value of
  another type under one of the four keys, makes it return false.
\<close>

theorem validation_iff_spec_document:
  "validation d = spec_document d \<and>
   (validation d \<longrightarrow> is_JArr d \<and> list_all is_JObj (un_JArr d)) \<and>
   (k \<in> {''surname'', ''name'', ''birthday''} \<and> map_of kvs k = None \<and> JObj kvs \<in> set xs
      \<longrightarrow> \<not> validation (JArr xs)) \<and>
   (k \<in> {''surname'', ''name'', ''zodiac''} \<and> map_of kvs k = Some v \<and> \<not> is_JStr v \<and>
    JObj kvs \<in> set xs \<longrightarrow> \<not> validation (JArr xs)) \<and>
   (map_of kvs ''birthday'' = Some v \<and> \<not> (is_JArr v \<and> list_all is_JStr (un_JArr v)) \<and>
    JObj kvs \<in> set xs \<longrightarrow> \<not> validation (JArr xs))"
proof -
  have obj: "spec_person p \<Longrightarrow> is_JObj p" for p
    by (cases p) (simp_all add: spec_person_def)
  have 1: "validation d \<longrightarrow> is_JArr d \<and> list_all is_JObj (un_JArr d)"
    by (cases d) (auto simp: validation_spec spec_document_def list_all_iff obj)
  have sp: "validation (JArr xs) \<Longrightarrow> JObj kvs \<in> set xs \<Longrightarrow> spec_person (JObj kvs)"
    by (simp add: validation_array list_all_iff)
  have 2: "k \<in> {''surname'', ''name'', ''birthday''} \<and> map_of kvs k = None \<and> JObj kvs \<in> set xs
      \<longrightarrow> \<not> validation (JArr xs)"
    using sp by (auto simp: spec_person_def)
  have 3: "k \<in> {''surname'', ''name'', ''zodiac''} \<and> map_of kvs k = Some v \<and> \<not> is_JStr v \<and>
      JObj kvs \<in> set xs \<longrightarrow> \<not> validation (JArr xs)"
    using sp by (auto simp: spec_person_def)
  have 4: "map_of kvs ''birthday'' = Some v \<and> \<not> (is_JArr v \<and> list_all is_JStr (un_JArr v)) \<and>
      JObj kvs \<in> set xs \<longrightarrow> \<not> validation (JArr xs)"
    using sp by (auto simp: spec_person_def)
  from validation_spec 1 2 3 4 show ?thesis by blast
qed

theorem validation_iff_spec_document_witness:
  "validation
     (JArr [JObj [(''surname'', JStr ''Doe''), (''name'', JStr ''Jane''),
                  (''birthday'', JArr [JStr ''15'', JStr ''03'', JStr ''1990''])]]) \<and>
   \<not> validation (JArr [JObj [(''surname'', JStr ''Doe''), (''birthday'', JArr [])]]) \<and>
   \<not> validation (JArr [JObj [(''surname'', JStr ''Doe''), (''name'', JStr ''Jane''),
                             (''birthday'', JStr ''15.03.1990'')]])"
proof -
  have 1: "spec_document
     (JArr [JObj [(''surname'', JStr ''Doe''), (''name'', JStr ''Jane''),
                  (''birthday'', JArr [JStr ''15'', JStr ''03'', JStr ''1990''])]])"
    by (simp add: spec_document_def spec_person_def)
  have 2: "''name'' \<in> {''surname'', ''name'', ''birthday''} \<and>
     map_of [(''surname'', JStr ''Doe''), (''birthday'', JArr [])] ''name'' = None \<and>
     JObj [(''surname'', JStr ''Doe''), (''birthday'', JArr [])] \<in>
       set [JObj [(''surname'', JStr ''Doe''), (''birthday'', JArr [])]]"
    by simp
  have 3: "map_of [(''surname'', JStr ''Doe''), (''name'', JStr ''Jane''),
                   (''birthday'', JStr ''15.03.1990'')] ''birthday'' = Some (JStr ''15.03.1990'') \<and>
     \<not> (is_JArr (JStr ''15.03.1990'') \<and> list_all is_JStr (un_JArr (JStr ''15.03.1990''))) \<and>
     JObj [(''surname'', JStr ''Doe''), (''name'', JStr ''Jane''),
           (''birthday'', JStr ''15.03.1990'')] \<in>
       set [JObj [(''surname'', JStr ''Doe''), (''name'', JStr ''Jane''),
                  (''birthday'', JStr ''15.03.1990'')]]"
    by simp
  show ?thesis
    using 1 2 3
      validation_iff_spec_document
        [of "JArr [JObj [(''surname'', JStr ''Doe''), (''name'', JStr ''Jane''),
                         (''birthday'', JArr [JStr ''15'', JStr ''03'', JStr ''1990''])]]"
            "''name''" "[(''surname'', JStr ''Doe''), (''birthday'', JArr [])]"
            "[JObj [(''surname'', JStr ''Doe''), (''birthday'', JArr [])]]" JNull]
      validation_iff_spec_document
        [of JNull "''name''"
            "[(''surname'', JStr ''Doe''), (''name'', JStr ''Jane''),
              (''birthday'', JStr ''15.03.1990'')]"
            "[JObj [(''surname'', JStr ''Doe''), (''name'', JStr ''Jane''),
                    (''birthday'', JStr ''15.03.1990'')]]" "JStr ''15.03.1990''"]
    by blast
qed

section \<open>Adding a record\<close>

lemma str_split_not_Nil: "str_split sep s \<noteq> []"
  by (induction s) (auto split: list.splits)

lemma str_join_Cons_char: "str_join sep ((c # t) # ts) = c # str_join sep (t # ts)"
  by (cases ts) simp_all

lemma str_join_split: "str_join [sep] (str_split sep s) = s"
proof (induction s)
  case Nil
  show ?case by simp
next
  case (Cons c cs)
  obtain t ts where "str_split sep cs = t # ts"
    using str_split_not_Nil[of sep cs] by (cases "str_split sep cs") auto
  with Cons show ?case by (simp add: str_join_Cons_char)
qed

lemma str_split_no_sep: "list_all (\<lambda>t. sep \<notin> set t) (str_split sep s)"
  by (induction s) (auto split: list.splits)

lemma str_split_token: "sep \<notin> set t \<Longrightarrow> str_split sep (t @ sep # s) = t # str_split sep s"
  by (induction t) (auto split: list.splits)

lemma str_split_single: "sep \<notin> set t \<Longrightarrow> str_split sep t = [t]"
  by (induction t) (auto split: list.splits)

lemma str_split_join:
  "ts \<noteq> [] \<Longrightarrow> list_all (\<lambda>t. sep \<notin> set t) ts \<Longrightarrow> str_split sep (str_join [sep] ts) = ts"
  by (induction "[sep]" ts rule: str_join.induct) (simp_all add: str_split_single str_split_token)

text \<open>
  C5. \<^verbatim>\<open>add_person\<close> appends exactly one record, built from the four inputs, to the end
  of the collection and returns the collection. The \<open>birthday\<close> of the record is the
  text split at the dots: the tokens hold no dot and joined with dots they are the text
  again. Nothing about the tokens is checked. Adding Jane Doe, Leo, \<^verbatim>\<open>15.03.1990\<close> to the
  empty collection gives the collection of the specification's scenario.
\<close>

theorem add_person_appends_record:
  "add_person people surname name zodiac birthday =
     people @
     [JObj [(''surname'', JStr surname), (''name'', JStr name),
            (''zodiac'', (case zodiac of None \<Rightarrow> JNull | Some z \<Rightarrow> JStr z)),
            (''birthday'', JArr (map JStr (str_split CHR ''.'' birthday)))]] \<and>
   length (add_person people surname name zodiac birthday) = Suc (length people) \<and>
   str_join ''.'' (str_split CHR ''.'' birthday) = birthday \<and>
   list_all (\<lambda>t. CHR ''.'' \<notin> set t) (str_split CHR ''.'' birthday) \<and>
   add_person [] ''Doe'' ''Jane'' (Some ''Leo'') ''15.03.1990'' =
     [JObj [(''surname'', JStr ''Doe''), (''name'', JStr ''Jane''), (''zodiac'', JStr ''Leo''),
            (''birthday'', JArr [JStr ''15'', JStr ''03'', JStr ''1990''])]]"
  by (simp add: add_person_def str_join_split str_split_no_sep)

theorem add_person_appends_record_witness:
  "add_person [JNull] ''Roe'' ''Rick'' None ''1.1..x'' =
     [JNull,
      JObj [(''surname'', JStr ''Roe''), (''name'', JStr ''Rick''), (''zodiac'', JNull),
            (''birthday'', JArr [JStr ''1'', JStr ''1'', JStr [], JStr ''x''])]]"
  using add_person_appends_record[of "[JNull]" "''Roe''" "''Rick''" None "''1.1..x''"]
  by simp

section \<open>Selecting by surname\<close>

lemma select_loop_objects:
  "list_all is_JObj people \<Longrightarrow>
   select_loop s people acc =
     Inr (acc @ filter (\<lambda>p. dict_get (un_JObj p) ''surname'' (JStr []) = JStr s) people)"
proof (induction people arbitrary: acc)
  case Nil
  show ?case by simp
next
  case (Cons i rest)
  then obtain kvs where i: "i = JObj kvs" by (cases i) auto
  from Cons show ?case by (simp add: i)
qed

lemma has_surname_match:
  "has_surname p \<Longrightarrow>
   is_JObj p \<and> (dict_get (un_JObj p) ''surname'' (JStr []) = JStr s) = surname_is s p"
  by (cases p) (auto simp: has_surname_def surname_is_def dict_get_def split: option.splits)

lemma select_people_persons:
  assumes "list_all has_surname people"
  shows "select_people s people = Inr (filter (surname_is s) people)"
proof -
  have obj: "list_all is_JObj people"
    using assms has_surname_match by (auto simp: list_all_iff)
  have "filter (\<lambda>p. dict_get (un_JObj p) ''surname'' (JStr []) = JStr s) people =
        filter (surname_is s) people"
    using assms has_surname_match by (intro filter_cong) (auto simp: list_all_iff)
  with select_loop_objects[OF obj, of s "[]"] show ?thesis
    by (simp add: select_people_def)
qed

lemma validation_has_surname: "validation (JArr people) \<Longrightarrow> list_all has_surname people"
proof -
  have "has_surname p" if "spec_person p" for p
    using that by (cases p) (auto simp: spec_person_def has_surname_def split: option.splits)
  then show "validation (JArr people) \<Longrightarrow> list_all has_surname people"
    by (auto simp: validation_array list_all_iff)
qed

text \<open>
  C4. On a collection of person records, each a dict with the key \<open>surname\<close> (as every
  collection that passed validation is, by \<open>validation_has_surname\<close>), \<^verbatim>\<open>select_people\<close>
  returns exactly the records whose \<open>surname\<close> is the query string, character by
  character, in the order they have in the collection; when no record matches it
  returns the empty list, not an error.
\<close>

theorem select_people_exact:
  assumes "list_all has_surname people"
  shows "select_people s people = Inr (filter (surname_is s) people) \<and>
         ((\<forall>p \<in> set people. \<not> surname_is s p) \<longrightarrow> select_people s people = Inr [])"
proof -
  have "select_people s people = Inr (filter (surname_is s) people)"
    using assms by (rule select_people_persons)
  then show ?thesis
    by (auto simp: filter_empty_conv)
qed

theorem select_people_exact_witness:
  "list_all has_surname
     [JObj [(''surname'', JStr ''Smith''), (''name'', JStr ''A''), (''birthday'', JArr [])],
      JObj [(''surname'', JStr ''smith''), (''name'', JStr ''B''), (''birthday'', JArr [])],
      JObj [(''surname'', JStr ''Smith ''), (''name'', JStr ''C''), (''birthday'', JArr [])],
      JObj [(''surname'', JStr ''Smith''), (''name'', JStr ''D''), (''birthday'', JArr [])]] \<and>
   select_people ''Smith''
     [JObj [(''surname'', JStr ''Smith''), (''name'', JStr ''A''), (''birthday'', JArr [])],
      JObj [(''surname'', JStr ''smith''), (''name'', JStr ''B''), (''birthday'', JArr [])],
      JObj [(''surname'', JStr ''Smith ''), (''name'', JStr ''C''), (''birthday'', JArr [])],
      JObj [(''surname'', JStr ''Smith''), (''name'', JStr ''D''), (''birthday'', JArr [])]] =
   Inr [JObj [(''surname'', JStr ''Smith''), (''name'', JStr ''A''), (''birthday'', JArr [])],
        JObj [(''surname'', JStr ''Smith''), (''name'', JStr ''D''), (''birthday'', JArr [])]] \<and>
   select_people ''Jones''
     [JObj [(''surname'', JStr ''Smith''), (''name'', JStr ''A''), (''birthday'', JArr [])],
      JObj [(''surname'', JStr ''smith''), (''name'', JStr ''B''), (''birthday'', JArr [])],
      JObj [(''surname'', JStr ''Smith ''), (''name'', JStr ''C''), (''birthday'', JArr [])],
      JObj [(''surname'', JStr ''Smith''), (''name'', JStr ''D''), (''birthday'', JArr [])]] =
   Inr []"
proof -
  have v: "list_all has_surname
     [JObj [(''surname'', JStr ''Smith''), (''name'', JStr ''A''), (''birthday'', JArr [])],
      JObj [(''surname'', JStr ''smith''), (''name'', JStr ''B''), (''birthday'', JArr [])],
      JObj [(''surname'', JStr ''Smith ''), (''name'', JStr ''C''), (''birthday'', JArr [])],
      JObj [(''surname'', JStr ''Smith''), (''name'', JStr ''D''), (''birthday'', JArr [])]]"
    by (simp add: has_surname_def)
  from select_people_exact[OF v, of "''Smith''"] select_people_exact[OF v, of "''Jones''"] v
  show ?thesis
    by (simp add: surname_is_def)
qed

section \<open>The sort is chronological\<close>


lemma keys_of_fails:
  "\<not> list_all (\<lambda>x. \<exists>k. f x = Inr k) xs \<Longrightarrow> \<exists>e. keys_of f xs = Inl e"
  by (induction xs) (auto split: sum.splits)

lemma keys_of_error_from:
  "keys_of f xs = Inl e \<Longrightarrow> \<exists>x \<in> set xs. f x = Inl e"
  by (induction xs) (auto split: sum.splits)





lemma has_date_iff: "has_date p = (\<exists>k. birthday_key p = Inr k)"
  by (auto simp: has_date_def split: sum.splits)




text \<open>
  What \<^verbatim>\<open>strptime\<close> accepts: a day, a month and a year of digits between two dots (the
  day may start with a blank), with the month from 1 to 12, the day within the month and
  the year from 1 on. So the birthday of a record whose tokens hold no dot, as
  \<^verbatim>\<open>add_person\<close> makes them, parses only if there are three such tokens.
\<close>

lemma rx_class_match:
  "(m, r) \<in> set (rx_class cs s) \<Longrightarrow> s = m @ r \<and> set m \<subseteq> set cs \<and> length m = 1"
  by (cases s) (auto simp: rx_class_def split: if_splits)

lemma rx_seq_match:
  assumes "(m, r) \<in> set (rx_seq a b s)"
  shows "\<exists>m1 r1 m2. (m1, r1) \<in> set (a s) \<and> (m2, r) \<in> set (b r1) \<and> m = m1 @ m2"
  using assms by (fastforce simp: rx_seq_def)

lemma rx_alt_match: "(m, r) \<in> set (rx_alt a b s) \<longleftrightarrow> (m, r) \<in> set (a s) \<or> (m, r) \<in> set (b s)"
  by (simp add: rx_alt_def)

lemma rx_pair_match:
  assumes "(m, r) \<in> set (rx_seq (rx_class cs) (rx_class ds) s)"
  shows "s = m @ r \<and> set m \<subseteq> set cs \<union> set ds"
proof -
  from rx_seq_match[OF assms] obtain m1 r1 m2
    where "(m1, r1) \<in> set (rx_class cs s)" "(m2, r) \<in> set (rx_class ds r1)" "m = m1 @ m2"
    by blast
  then show ?thesis
    using rx_class_match[of m1 r1 cs s] rx_class_match[of m2 r ds r1] by auto
qed

lemma rx_pair_sub:
  assumes "(m, r) \<in> set (rx_seq (rx_class cs) (rx_class ds) s)" and "set cs \<union> set ds \<subseteq> A"
  shows "s = m @ r \<and> set m \<subseteq> A"
  using rx_pair_match[OF assms(1)] assms(2) by blast

lemma rx_class_sub:
  assumes "(m, r) \<in> set (rx_class cs s)" and "set cs \<subseteq> A"
  shows "s = m @ r \<and> set m \<subseteq> A"
  using rx_class_match[OF assms(1)] assms(2) by blast

lemma rx_d_match:
  assumes "(m, r) \<in> set (rx_d s)"
  shows "s = m @ r \<and> set m \<subseteq> set '' 0123456789''"
proof -
  from assms have
    "(m, r) \<in> set (rx_seq (rx_class ''3'') (rx_class ''01'') s) \<or>
     (m, r) \<in> set (rx_seq (rx_class ''12'') (rx_class ''0123456789'') s) \<or>
     (m, r) \<in> set (rx_seq (rx_class ''0'') (rx_class ''123456789'') s) \<or>
     (m, r) \<in> set (rx_class ''123456789'' s) \<or>
     (m, r) \<in> set (rx_seq (rx_class '' '') (rx_class ''123456789'') s)"
    unfolding rx_d_def rx_alt_match rx_digit_def .
  then show ?thesis
  proof (elim disjE)
    assume "(m, r) \<in> set (rx_seq (rx_class ''3'') (rx_class ''01'') s)"
    then show ?thesis by (rule rx_pair_sub) simp
  next
    assume "(m, r) \<in> set (rx_seq (rx_class ''12'') (rx_class ''0123456789'') s)"
    then show ?thesis by (rule rx_pair_sub) simp
  next
    assume "(m, r) \<in> set (rx_seq (rx_class ''0'') (rx_class ''123456789'') s)"
    then show ?thesis by (rule rx_pair_sub) simp
  next
    assume "(m, r) \<in> set (rx_class ''123456789'' s)"
    then show ?thesis by (rule rx_class_sub) simp
  next
    assume "(m, r) \<in> set (rx_seq (rx_class '' '') (rx_class ''123456789'') s)"
    then show ?thesis by (rule rx_pair_sub) simp
  qed
qed

lemma rx_m_match:
  assumes "(m, r) \<in> set (rx_m s)"
  shows "s = m @ r \<and> set m \<subseteq> set ''0123456789''"
proof -
  from assms have
    "(m, r) \<in> set (rx_seq (rx_class ''1'') (rx_class ''012'') s) \<or>
     (m, r) \<in> set (rx_seq (rx_class ''0'') (rx_class ''123456789'') s) \<or>
     (m, r) \<in> set (rx_class ''123456789'' s)"
    unfolding rx_m_def rx_alt_match .
  then show ?thesis
  proof (elim disjE)
    assume "(m, r) \<in> set (rx_seq (rx_class ''1'') (rx_class ''012'') s)"
    then show ?thesis by (rule rx_pair_sub) simp
  next
    assume "(m, r) \<in> set (rx_seq (rx_class ''0'') (rx_class ''123456789'') s)"
    then show ?thesis by (rule rx_pair_sub) simp
  next
    assume "(m, r) \<in> set (rx_class ''123456789'' s)"
    then show ?thesis by (rule rx_class_sub) simp
  qed
qed

lemma rx_Y_match:
  assumes "(m, r) \<in> set (rx_Y s)"
  shows "s = m @ r \<and> set m \<subseteq> set ''0123456789''"
proof -
  from assms obtain m1 r1 m2 r2 m3 r3 m4
    where "(m1, r1) \<in> set (rx_digit s)" "(m2, r2) \<in> set (rx_digit r1)"
      "(m3, r3) \<in> set (rx_digit r2)" "(m4, r) \<in> set (rx_digit r3)" "m = m1 @ m2 @ m3 @ m4"
    unfolding rx_Y_def by (metis rx_seq_match)
  then show ?thesis
    using rx_class_match[of m1 r1 "''0123456789''" s] rx_class_match[of m2 r2 "''0123456789''" r1]
      rx_class_match[of m3 r3 "''0123456789''" r2] rx_class_match[of m4 r "''0123456789''" r3]
    by (auto simp: rx_digit_def)
qed

lemma format_regex_match:
  assumes "(d, m, y, rest) \<in> set (format_regex s)"
  shows "s = d @ CHR ''.'' # m @ CHR ''.'' # y @ rest \<and>
         set d \<subseteq> set '' 0123456789'' \<and> set m \<subseteq> set ''0123456789'' \<and>
         set y \<subseteq> set ''0123456789''"
proof -
  from assms obtain r1 p1 r2 r3 p2 r4
    where d: "(d, r1) \<in> set (rx_d s)" and p1: "(p1, r2) \<in> set (rx_class ''.'' r1)"
      and m: "(m, r3) \<in> set (rx_m r2)" and p2: "(p2, r4) \<in> set (rx_class ''.'' r3)"
      and y: "(y, rest) \<in> set (rx_Y r4)"
    by (auto simp: format_regex_def)
  from rx_class_match[OF p1] have "r1 = CHR ''.'' # r2"
    by (cases p1) auto
  moreover from rx_class_match[OF p2] have "r3 = CHR ''.'' # r4"
    by (cases p2) auto
  ultimately show ?thesis
    using rx_d_match[OF d] rx_m_match[OF m] rx_Y_match[OF y] by simp
qed

lemma strptime_tokens:
  assumes "strptime s = Inr (year, month, day)"
  shows "\<exists>d m y. str_split CHR ''.'' s = [d, m, y] \<and>
           set d \<subseteq> set '' 0123456789'' \<and> set m \<subseteq> set ''0123456789'' \<and>
           set y \<subseteq> set ''0123456789'' \<and>
           year = py_int y \<and> month = py_int m \<and> day = py_int d \<and>
           1 \<le> year \<and> 1 \<le> month \<and> month \<le> 12 \<and> 1 \<le> day \<and> day \<le> days_in_month year month"
proof -
  from assms obtain d m y rest ms where f: "format_regex s = (d, m, y, rest) # ms"
    by (cases "format_regex s") (auto simp: strptime_def)
  with assms have rest: "rest = []"
    and mk: "make_datetime (py_int y) (py_int m) (py_int d) = Inr (year, month, day)"
    by (auto simp: strptime_def split: if_splits)
  have "(d, m, y, rest) \<in> set (format_regex s)"
    using f by simp
  from format_regex_match[OF this] rest
  have s: "s = d @ CHR ''.'' # m @ CHR ''.'' # y"
    and ch: "set d \<subseteq> set '' 0123456789''" "set m \<subseteq> set ''0123456789''"
      "set y \<subseteq> set ''0123456789''"
    by simp_all
  from ch have nd: "CHR ''.'' \<notin> set d" "CHR ''.'' \<notin> set m" "CHR ''.'' \<notin> set y"
    by auto
  have "str_split CHR ''.'' s = [d, m, y]"
    unfolding s by (simp add: str_split_token nd str_split_single)
  moreover from mk have "year = py_int y \<and> month = py_int m \<and> day = py_int d \<and>
      1 \<le> year \<and> 1 \<le> month \<and> month \<le> 12 \<and> 1 \<le> day \<and> day \<le> days_in_month year month"
    by (auto simp: make_datetime_def split: if_splits)
  ultimately show ?thesis
    using ch by blast
qed

lemma has_date_tokens:
  assumes "has_date (JObj kvs)"
    and "map_of kvs ''birthday'' = Some (JArr (map JStr ts))"
    and "list_all (\<lambda>t. CHR ''.'' \<notin> set t) ts"
  shows "\<exists>d m y. ts = [d, m, y] \<and>
           set d \<subseteq> set '' 0123456789'' \<and> set m \<subseteq> set ''0123456789'' \<and>
           set y \<subseteq> set ''0123456789'' \<and>
           1 \<le> py_int y \<and> 1 \<le> py_int m \<and> py_int m \<le> 12 \<and>
           1 \<le> py_int d \<and> py_int d \<le> days_in_month (py_int y) (py_int m) \<and>
           date_of (JObj kvs) = (py_int y, py_int m, py_int d)"
proof -
  have j: "py_join ''.'' (JArr (map JStr ts)) = Inr (str_join ''.'' ts)"
    by (simp add: list_all_iff comp_def)
  from assms(1,2) j obtain year month day
    where p: "strptime (str_join ''.'' ts) = Inr (year, month, day)"
    by (auto simp: has_date_def birthday_key_def split: sum.splits)
  with assms(2) j have dt: "date_of (JObj kvs) = (year, month, day)"
    by (simp add: date_of_def birthday_key_def)
  from strptime_tokens[OF p] obtain d m y
    where sp: "str_split CHR ''.'' (str_join ''.'' ts) = [d, m, y]"
      and rest: "set d \<subseteq> set '' 0123456789'' \<and> set m \<subseteq> set ''0123456789'' \<and>
           set y \<subseteq> set ''0123456789'' \<and>
           year = py_int y \<and> month = py_int m \<and> day = py_int d \<and>
           1 \<le> year \<and> 1 \<le> month \<and> month \<le> 12 \<and> 1 \<le> day \<and> day \<le> days_in_month year month"
    by blast
  have "ts \<noteq> []"
  proof
    assume "ts = []"
    with sp show False by simp
  qed
  from str_split_join[OF this assms(3)] sp have "ts = [d, m, y]"
    by simp
  with rest dt show ?thesis
    by blast
qed

lemma strptime_error: "strptime s = Inl e \<Longrightarrow> e = ValueError"
  by (auto simp: strptime_def make_datetime_def split: list.splits if_splits prod.splits)

lemma spec_person_key: "spec_person p \<Longrightarrow> birthday_key p = Inl e \<Longrightarrow> e = ValueError"
  by (cases p)
     (auto simp: spec_person_def birthday_key_def is_JArr_def
           split: option.splits sum.splits dest: strptime_error)

text \<open>
  C6. When the birthday of some record, joined with dots, does not parse as a
  day.month.year date (by \<open>has_date_tokens\<close>: another number of tokens, a token that is
  not a number, a day or month out of range), the sort returns no collection: it ends
  with the exception of the key function. On records that passed validation, or that
  \<^verbatim>\<open>add_person\<close> built, that exception is the \<^verbatim>\<open>ValueError\<close> of \<^verbatim>\<open>strptime\<close>, which is
  the malformed-date error of the specification.
\<close>

theorem sort_fails_on_malformed_date:
  assumes "\<not> list_all has_date people"
  shows "(\<exists>e. sort_people people = Inl e) \<and>
         (list_all spec_person people \<longrightarrow> sort_people people = Inl ValueError)"
proof -
  from assms have "\<not> list_all (\<lambda>x. \<exists>k. birthday_key x = Inr k) people"
    by (simp add: has_date_iff[abs_def])
  then obtain e where e: "keys_of birthday_key people = Inl e"
    using keys_of_fails by blast
  then obtain p where p: "p \<in> set people" "birthday_key p = Inl e"
    using keys_of_error_from by blast
  have "list_all spec_person people \<longrightarrow> e = ValueError"
    using p spec_person_key by (auto simp: list_all_iff)
  with e show ?thesis
    by (auto simp: sort_people_def list_sort_def)
qed

theorem sort_fails_on_malformed_date_witness:
  "\<not> list_all has_date
       (add_person
          [JObj [(''surname'', JStr ''Doe''), (''name'', JStr ''Jane''),
                 (''birthday'', JArr [JStr ''15'', JStr ''03'', JStr ''1990''])]]
          ''Roe'' ''Rick'' (Some ''Leo'') ''31.02.1980'') \<and>
   sort_people
     (add_person
        [JObj [(''surname'', JStr ''Doe''), (''name'', JStr ''Jane''),
               (''birthday'', JArr [JStr ''15'', JStr ''03'', JStr ''1990''])]]
        ''Roe'' ''Rick'' (Some ''Leo'') ''31.02.1980'') = Inl ValueError \<and>
   sort_people (add_person [] ''Roe'' ''Rick'' (Some ''Leo'') ''1980'') = Inl ValueError \<and>
   sort_people (add_person [] ''Roe'' ''Rick'' (Some ''Leo'') ''1.Jan.1980'') = Inl ValueError"
proof -
  have h: "\<not> list_all has_date
       (add_person
          [JObj [(''surname'', JStr ''Doe''), (''name'', JStr ''Jane''),
                 (''birthday'', JArr [JStr ''15'', JStr ''03'', JStr ''1990''])]]
          ''Roe'' ''Rick'' (Some ''Leo'') ''31.02.1980'')"
    by code_simp
  have v: "list_all spec_person
       (add_person
          [JObj [(''surname'', JStr ''Doe''), (''name'', JStr ''Jane''),
                 (''birthday'', JArr [JStr ''15'', JStr ''03'', JStr ''1990''])]]
          ''Roe'' ''Rick'' (Some ''Leo'') ''31.02.1980'')"
    by code_simp
  have h2: "\<not> list_all has_date (add_person [] ''Roe'' ''Rick'' (Some ''Leo'') ''1980'')"
    by code_simp
  have v2: "list_all spec_person (add_person [] ''Roe'' ''Rick'' (Some ''Leo'') ''1980'')"
    by code_simp
  have h3: "\<not> list_all has_date (add_person [] ''Roe'' ''Rick'' (Some ''Leo'') ''1.Jan.1980'')"
    by code_simp
  have v3: "list_all spec_person (add_person [] ''Roe'' ''Rick'' (Some ''Leo'') ''1.Jan.1980'')"
    by code_simp
  from sort_fails_on_malformed_date[OF h] sort_fails_on_malformed_date[OF h2]
    sort_fails_on_malformed_date[OF h3] h v v2 v3
  show ?thesis
    by blast
qed

section \<open>Loading, and what a run writes\<close>





lemma run_command_effect:
  assumes "run_command a people w = Inr (people', is_dirty, w')"
  shows "is_dirty = is_Add a \<and> files w' = files w \<and> writes w' = writes w"
  using assms by (cases a) (auto simp: run_command_def split: sum.splits)

lemma main_error_keeps_world: "main e a w = (Some err, w') \<Longrightarrow> w' = w"
  by (auto simp: main_def split: option.splits sum.splits prod.splits if_splits)

text \<open>
  C8, as the code has it. In a run that ends without an exception, \<^verbatim>\<open>save_people\<close> is
  executed, once and on the path under the home directory, exactly when the command is
  \<open>add\<close>. The commands \<open>select\<close> and \<open>display\<close> write nothing, whether or not the run
  ends with an exception: the files are as before.
\<close>

theorem save_iff_completed_add:
  "(fst (main e a w) = None \<longrightarrow>
      (is_Add a \<longrightarrow>
         (\<exists>f. filename a = Some f \<and>
              writes (snd (main e a w)) =
                writes w @ [path_join (cwd e) (path_join (home e) f)])) \<and>
      (\<not> is_Add a \<longrightarrow> writes (snd (main e a w)) = writes w)) \<and>
   (\<not> is_Add a \<longrightarrow>
      files (snd (main e a w)) = files w \<and> writes (snd (main e a w)) = writes w)"
proof -
  have quiet: "files (snd (main e a w)) = files w \<and> writes (snd (main e a w)) = writes w"
    if "\<not> is_Add a"
    using that run_command_effect[of a _ w]
    by (auto simp: main_def split: option.splits sum.splits prod.splits)
  have saved: "\<exists>f. filename a = Some f \<and>
      writes (snd (main e a w)) = writes w @ [path_join (cwd e) (path_join (home e) f)]"
    if "is_Add a" "fst (main e a w) = None"
    using that run_command_effect[of a _ w]
    by (auto simp: main_def save_people_def split: option.splits sum.splits prod.splits)
  from quiet saved show ?thesis by blast
qed

theorem save_iff_completed_add_witness:
  "fst (main \<lparr>home = ''/home/u'', cwd = ''/home/u'', encoding = UTF_8\<rparr>
         (Add ''p.json'' ''Doe'' ''Jane'' (Some ''Leo'') ''15.03.1990'')
         \<lparr>files = Map.empty, writes = [], stdout = []\<rparr>) = None \<and>
   writes (snd (main \<lparr>home = ''/home/u'', cwd = ''/home/u'', encoding = UTF_8\<rparr>
         (Add ''p.json'' ''Doe'' ''Jane'' (Some ''Leo'') ''15.03.1990'')
         \<lparr>files = Map.empty, writes = [], stdout = []\<rparr>)) = [''/home/u/p.json''] \<and>
   writes (snd (main \<lparr>home = ''/home/u'', cwd = ''/home/u'', encoding = UTF_8\<rparr>
         (Select ''p.json'' ''Doe'')
         \<lparr>files = Map.empty, writes = [], stdout = []\<rparr>)) = []"
proof -
  let ?e = "\<lparr>home = ''/home/u'', cwd = ''/home/u'', encoding = UTF_8\<rparr>"
  let ?w = "\<lparr>files = Map.empty, writes = [], stdout = []\<rparr>"
  let ?a = "Add ''p.json'' ''Doe'' ''Jane'' (Some ''Leo'') ''15.03.1990''"
  have s: "sort_people (add_person [] ''Doe'' ''Jane'' (Some ''Leo'') ''15.03.1990'') =
      Inr (add_person [] ''Doe'' ''Jane'' (Some ''Leo'') ''15.03.1990'')"
    by code_simp
  have ok: "fst (main ?e ?a ?w) = None"
    by (simp add: main_def initial_people_def run_command_def s)
  have p: "path_join ''/home/u'' (path_join ''/home/u'' ''p.json'') = ''/home/u/p.json''"
    by (simp add: path_join_def)
  from save_iff_completed_add[of ?e ?a ?w] ok
  have 1: "writes (snd (main ?e ?a ?w)) = [''/home/u/p.json'']"
    by (simp add: p)
  from save_iff_completed_add[of ?e "Select ''p.json'' ''Doe''" ?w]
  have 2: "writes (snd (main ?e (Select ''p.json'' ''Doe'') ?w)) = []"
    by simp
  from ok 1 2 show ?thesis by simp
qed

text \<open>
  C8, as the claim states it, fails: an \<open>add\<close> whose birthday is not a date ends in the
  sort with a \<^verbatim>\<open>ValueError\<close>, before \<^verbatim>\<open>save_people\<close>.
\<close>

theorem save_iff_add_counterexample:
  "\<not> (writes (snd (main \<lparr>home = ''/home/u'', cwd = ''/home/u'', encoding = UTF_8\<rparr>
                     (Add ''p.json'' ''Doe'' ''Jane'' (Some ''Leo'') ''1990-03-15'')
                     \<lparr>files = Map.empty, writes = [], stdout = []\<rparr>)) \<noteq> [] \<longleftrightarrow>
       is_Add (Add ''p.json'' ''Doe'' ''Jane'' (Some ''Leo'') ''1990-03-15''))"
proof -
  have "sort_people (add_person [] ''Doe'' ''Jane'' (Some ''Leo'') ''1990-03-15'') = Inl ValueError"
    by code_simp
  then show ?thesis
    by (simp add: main_def initial_people_def run_command_def)
qed

text \<open>
  C9 fails on the code: the file is looked for under the home directory, but
  \<^verbatim>\<open>load_people\<close> is given the name as typed, which \<^verbatim>\<open>open\<close> resolves against the working
  directory. Run from \<^verbatim>\<open>/tmp\<close> with a file of one record under the home directory and an
  empty list in \<^verbatim>\<open>/tmp/p.json\<close>, \<open>display\<close> shows the empty list; without \<^verbatim>\<open>/tmp/p.json\<close>
  the run ends with \<^verbatim>\<open>FileNotFoundError\<close>. \<^verbatim>\<open>save_people\<close> writes under the home directory.
\<close>

theorem load_reads_working_directory:
  "main \<lparr>home = ''/home/u'', cwd = ''/tmp'', encoding = UTF_8\<rparr> (Display ''p.json'')
     \<lparr>files = [''/home/u/p.json'' \<mapsto>
                 utf8_encode (json_dumps (JArr (add_person [] ''Doe'' ''Jane'' (Some ''Leo'') ''15.03.1990''))),
               ''/tmp/p.json'' \<mapsto> ''[]''],
      writes = [], stdout = []\<rparr> =
   (None,
    \<lparr>files = [''/home/u/p.json'' \<mapsto>
                 utf8_encode (json_dumps (JArr (add_person [] ''Doe'' ''Jane'' (Some ''Leo'') ''15.03.1990''))),
               ''/tmp/p.json'' \<mapsto> ''[]''],
      writes = [], stdout = [Empty_list]\<rparr>) \<and>
   fst (main \<lparr>home = ''/home/u'', cwd = ''/tmp'', encoding = UTF_8\<rparr> (Display ''p.json'')
     \<lparr>files = [''/home/u/p.json'' \<mapsto>
                 utf8_encode (json_dumps (JArr (add_person [] ''Doe'' ''Jane'' (Some ''Leo'') ''15.03.1990'')))],
      writes = [], stdout = []\<rparr>) = Some FileNotFoundError \<and>
   writes (snd (main \<lparr>home = ''/home/u'', cwd = ''/tmp'', encoding = UTF_8\<rparr>
                  (Add ''p.json'' ''Doe'' ''Jane'' (Some ''Leo'') ''15.03.1990'')
                  \<lparr>files = Map.empty, writes = [], stdout = []\<rparr>)) = [''/home/u/p.json'']"
proof -
  have j: "json_loads ''[]'' = Inr (JArr [])"
    by code_simp
  have s: "sort_people (add_person [] ''Doe'' ''Jane'' (Some ''Leo'') ''15.03.1990'') =
      Inr (add_person [] ''Doe'' ''Jane'' (Some ''Leo'') ''15.03.1990'')"
    by code_simp
  have v: "validation (JArr [])"
    by (simp add: validation_array)
  show ?thesis
    by (simp add: main_def initial_people_def load_people_def path_join_def decode_text_def
        j v s run_command_def display_people_def save_people_def)
qed

section \<open>Strings and integers are read back\<close>

lemma hex_val_hex_digit: "k < 16 \<Longrightarrow> hex_val (hex_digit k) = Some k"
  by (auto simp: hex_val_def hex_digit_def Let_def)

lemma scanstring_step:
  "scanstring (escape_char c @ r) =
     (case scanstring r of Inl e \<Rightarrow> Inl e | Inr (t, rest) \<Rightarrow> Inr (c # t, rest))"
proof -
  consider (special) "c \<in> {backslash, quote, CHR 0x08, CHR 0x0C, newline, CHR 0x0D, CHR 0x09}"
    | (control) "c \<notin> {backslash, quote, CHR 0x08, CHR 0x0C, newline, CHR 0x0D, CHR 0x09}"
        "of_char c < (32::nat)"
    | (plain) "c \<notin> {backslash, quote, CHR 0x08, CHR 0x0C, newline, CHR 0x0D, CHR 0x09}"
        "\<not> of_char c < (32::nat)"
    by blast
  then show ?thesis
  proof cases
    case special
    then show ?thesis
      by (auto simp: escape_char_def unescape_def backslash_def quote_def newline_def)
  next
    case control
    have d: "of_char c div 16 < (16::nat)" "of_char c mod 16 < (16::nat)"
      using control(2) by auto
    have z: "hex_val CHR ''0'' = Some 0"
      by (simp add: hex_val_def)
    have u: "((0 * 16 + 0) * 16 + of_char c div 16) * 16 + of_char c mod 16 = (of_char c :: nat)"
      by simp
    have co: "char_of (of_char c :: nat) = c" by simp
    have lt: "\<not> 256 \<le> (of_char c :: nat)"
      using control(2) by simp
    from control show ?thesis
      by (simp add: escape_char_def backslash_def quote_def newline_def
          hex_val_hex_digit[OF d(1)] hex_val_hex_digit[OF d(2)] z lt co split: sum.splits)
  next
    case plain
    then show ?thesis
      by (simp add: escape_char_def)
  qed
qed

lemma scanstring_escaped:
  "scanstring (concat (map escape_char s) @ quote # rest) = Inr (s, rest)"
  by (induction s) (simp_all add: scanstring_step)

lemma digit_chars:
  "char_of (48::nat) = CHR ''0''" "char_of (49::nat) = CHR ''1''" "char_of (50::nat) = CHR ''2''"
  "char_of (51::nat) = CHR ''3''" "char_of (52::nat) = CHR ''4''" "char_of (53::nat) = CHR ''5''"
  "char_of (54::nat) = CHR ''6''" "char_of (55::nat) = CHR ''7''" "char_of (56::nat) = CHR ''8''"
  "char_of (57::nat) = CHR ''9''"
  by code_simp+

lemma digit_char: "(k::nat) < 10 \<Longrightarrow> is_digit (char_of (48 + k))"
proof -
  assume "k < 10"
  then have "k \<in> {0, 1, 2, 3, 4, 5, 6, 7, 8, 9}" by auto
  then show ?thesis by (auto simp: is_digit_def digit_chars)
qed

lemma digit_val_char: "(k::nat) < 10 \<Longrightarrow> digit_val (char_of (48 + k)) = k"
  by (simp add: digit_val_def)

lemma str_of_nat_digits: "list_all is_digit (str_of_nat n)"
  by (induction n rule: str_of_nat.induct) (subst str_of_nat.simps, simp add: digit_char)

lemma str_of_nat_not_Nil: "str_of_nat n \<noteq> []"
  by (subst str_of_nat.simps) simp

lemma foldl_digits:
  "foldl (\<lambda>n c. 10 * n + digit_val c) 0 (str_of_nat n) = n"
  by (induction n rule: str_of_nat.induct) (subst str_of_nat.simps, simp add: digit_val_char)

lemma is_digit_not_blank: "is_digit c \<Longrightarrow> c \<noteq> CHR '' '' \<and> c \<noteq> CHR ''-''"
  by (auto simp: is_digit_def)

lemma py_int_str_of_nat: "py_int (str_of_nat n) = n"
proof -
  obtain c ds where s: "str_of_nat n = c # ds"
    using str_of_nat_not_Nil[of n] by (cases "str_of_nat n") auto
  with str_of_nat_digits[of n] have "c \<noteq> CHR '' ''"
    using is_digit_not_blank by auto
  with s foldl_digits[of n] show ?thesis
    by (simp add: py_int_def)
qed

lemma str_of_nat_first: "0 < n \<Longrightarrow> hd (str_of_nat n) \<in> set ''123456789''"
proof (induction n rule: str_of_nat.induct)
  case (1 n)
  show ?case
  proof (cases "n < 10")
    case True
    with 1(2) have "n \<in> {1, 2, 3, 4, 5, 6, 7, 8, 9}" by auto
    then show ?thesis by (subst str_of_nat.simps) (auto simp: digit_chars)
  next
    case False
    with 1 have "hd (str_of_nat (n div 10)) \<in> set ''123456789''" by simp
    with False show ?thesis
      by (subst str_of_nat.simps) (simp add: str_of_nat_not_Nil)
  qed
qed

lemma str_of_nat_0: "str_of_nat 0 = ''0''"
  by (subst str_of_nat.simps) (simp add: digit_chars)

lemma ends_value_no_digit: "ends_value rest \<Longrightarrow> takeWhile is_digit rest = [] \<and> dropWhile is_digit rest = rest"
  by (cases rest) (auto simp: ends_value_def is_digit_def newline_def)

lemma ends_value_no_float: "ends_value rest \<Longrightarrow> \<not> has_frac rest \<and> \<not> has_exp rest"
  by (cases rest) (auto simp: ends_value_def has_frac_def has_exp_def newline_def split: list.splits)

lemma scan_integer_positive:
  assumes "0 < n" and "ends_value rest"
  shows "scan_integer (str_of_nat n @ rest) = Some (str_of_nat n, rest)"
proof -
  obtain c ds where s: "str_of_nat n = c # ds"
    using str_of_nat_not_Nil[of n] by (cases "str_of_nat n") auto
  have c: "c \<in> set ''123456789''"
    using str_of_nat_first[OF assms(1)] s by simp
  then have c': "c \<noteq> CHR ''-''" "c \<noteq> CHR ''0''" by auto
  have ds: "\<forall>d \<in> set ds. is_digit d"
    using str_of_nat_digits[of n] s by (simp add: list_all_iff)
  have "takeWhile is_digit (ds @ rest) = ds" "dropWhile is_digit (ds @ rest) = rest"
    using ds ends_value_no_digit[OF assms(2)] by (simp_all add: takeWhile_append2 dropWhile_append2)
  with c c' show ?thesis
    by (simp add: scan_integer_def s Let_def)
qed

lemma scan_integer_negative:
  assumes "0 < n" and "ends_value rest"
  shows "scan_integer (CHR ''-'' # str_of_nat n @ rest) = Some (CHR ''-'' # str_of_nat n, rest)"
proof -
  obtain c ds where s: "str_of_nat n = c # ds"
    using str_of_nat_not_Nil[of n] by (cases "str_of_nat n") auto
  have c: "c \<in> set ''123456789''"
    using str_of_nat_first[OF assms(1)] s by simp
  then have c': "c \<noteq> CHR ''-''" "c \<noteq> CHR ''0''" by auto
  have ds: "\<forall>d \<in> set ds. is_digit d"
    using str_of_nat_digits[of n] s by (simp add: list_all_iff)
  have "takeWhile is_digit (ds @ rest) = ds" "dropWhile is_digit (ds @ rest) = rest"
    using ds ends_value_no_digit[OF assms(2)] by (simp_all add: takeWhile_append2 dropWhile_append2)
  with c c' show ?thesis
    by (simp add: scan_integer_def s Let_def)
qed

lemma scan_integer_repr:
  assumes "ends_value rest"
  shows "scan_integer (int_repr i @ rest) = Some (int_repr i, rest)"
proof -
  consider "i < 0" | "i = 0" | "0 < i" by linarith
  then show ?thesis
  proof cases
    case 1
    then show ?thesis
      using scan_integer_negative[of "nat (- i)" rest] assms by (simp add: int_repr_def)
  next
    case 2
    then show ?thesis
      by (simp add: int_repr_def str_of_nat_0 scan_integer_def)
  next
    case 3
    then show ?thesis
      using scan_integer_positive[of "nat i" rest] assms by (simp add: int_repr_def)
  qed
qed

lemma parse_int_repr: "parse_int (int_repr i) = i"
proof (cases "i < 0")
  case True
  then show ?thesis
    by (simp add: int_repr_def parse_int_def py_int_str_of_nat)
next
  case False
  obtain c ds where s: "str_of_nat (nat i) = c # ds"
    using str_of_nat_not_Nil[of "nat i"] by (cases "str_of_nat (nat i)") auto
  with str_of_nat_digits[of "nat i"] have "c \<noteq> CHR ''-''"
    using is_digit_not_blank by auto
  with False s py_int_str_of_nat[of "nat i"] show ?thesis
    by (simp add: int_repr_def parse_int_def)
qed

lemma int_repr_first:
  "\<exists>c ds. int_repr i = c # ds \<and> (c = CHR ''-'' \<or> is_digit c)"
proof -
  obtain c ds where s: "str_of_nat (nat i) = c # ds" "is_digit c"
    using str_of_nat_not_Nil[of "nat i"] str_of_nat_digits[of "nat i"]
    by (cases "str_of_nat (nat i)") auto
  then show ?thesis
    by (auto simp: int_repr_def)
qed

lemma scan_once_int:
  assumes "ends_value rest"
  shows "scan_once (Suc n) (int_repr i @ rest) = Inr (JInt i, rest)"
proof -
  obtain c ds where s: "int_repr i = c # ds" and c: "c = CHR ''-'' \<or> is_digit c"
    using int_repr_first by blast
  from c have c': "c \<noteq> quote" "c \<noteq> CHR ''{''" "c \<noteq> CHR ''[''" "c \<noteq> CHR ''n''"
    "c \<noteq> CHR ''t''" "c \<noteq> CHR ''f''"
    by (auto simp: is_digit_def quote_def)
  have "scan_integer (c # ds @ rest) = Some (c # ds, rest)"
    using scan_integer_repr[OF assms, of i] s by simp
  with c' ends_value_no_float[OF assms] parse_int_repr[of i] s show ?thesis
    by simp
qed

section \<open>Values are read back\<close>

lemma skip_ws_indent: "skip_ws (newline_indent l @ r) = skip_ws r"
proof -
  have "dropWhile is_ws (replicate k CHR '' '' @ r) = dropWhile is_ws r" for k
    by (induction k) (simp_all add: is_ws_def)
  then show ?thesis
    by (simp add: skip_ws_def newline_indent_def is_ws_def)
qed

lemma skip_ws_start: "\<not> is_ws c \<Longrightarrow> skip_ws (c # r) = c # r"
  by (simp add: skip_ws_def)

lemma ends_value_indent: "ends_value (newline_indent l @ r)"
  by (simp add: ends_value_def newline_indent_def)

lemma ends_value_comma: "ends_value (CHR '','' # r)"
  by (simp add: ends_value_def)

lemma ends_value_Nil: "ends_value []"
  by (simp add: ends_value_def)

lemma iterencode_first:
  "\<exists>c r. iterencode l v = c # r \<and> \<not> is_ws c \<and> c \<noteq> CHR '']''"
proof (cases v)
  case (JInt i)
  obtain c ds where "int_repr i = c # ds" "c = CHR ''-'' \<or> is_digit c"
    using int_repr_first by blast
  with JInt show ?thesis
    by (auto simp: is_ws_def is_digit_def newline_def)
qed (auto simp: is_ws_def newline_def encode_basestring_def quote_def)

lemma skip_ws_value: "skip_ws (iterencode l v @ r) = iterencode l v @ r"
  using iterencode_first[of l v] by (auto simp: skip_ws_start)

lemma scan_once_null: "scan_once (Suc n) (''null'' @ rest) = Inr (JNull, rest)"
  by (simp add: quote_def)

lemma scan_once_true: "scan_once (Suc n) (''true'' @ rest) = Inr (JBool True, rest)"
  by (simp add: quote_def)

lemma scan_once_false: "scan_once (Suc n) (''false'' @ rest) = Inr (JBool False, rest)"
  by (simp add: quote_def)

lemma scan_once_str:
  "scan_once (Suc n) (encode_basestring s @ rest) = Inr (JStr s, rest)"
  by (simp add: encode_basestring_def scanstring_escaped)

lemma length_indent: "length (newline_indent l) = Suc (4 * l)"
  by (simp add: newline_indent_def)

lemma length_value: "0 < length (iterencode l v)"
  using iterencode_first[of l v] by auto

lemma array_loop:
  assumes ih: "\<And>x l n rest. x \<in> set xs \<Longrightarrow> json_wf x \<Longrightarrow> ends_value rest \<Longrightarrow>
      length (iterencode l x @ rest) < n \<Longrightarrow> scan_once n (iterencode l x @ rest) = Inr (x, rest)"
    and "xs \<noteq> []" and "list_all json_wf xs"
    and "length (str_join (CHR '','' # newline_indent (Suc l)) (map (iterencode (Suc l)) xs) @
                 newline_indent l @ CHR '']'' # rest) + 1 < n"
  shows "JSONArray_loop n
           (str_join (CHR '','' # newline_indent (Suc l)) (map (iterencode (Suc l)) xs) @
            newline_indent l @ CHR '']'' # rest) = Inr (xs, rest)"
  using assms
proof (induction xs arbitrary: n)
  case Nil
  then show ?case by simp
next
  case (Cons x xs)
  obtain m where n: "n = Suc m" using Cons.prems(4) by (cases n) auto
  show ?case
  proof (cases xs)
    case Nil
    let ?R = "newline_indent l @ CHR '']'' # rest"
    have "scan_once m (iterencode (Suc l) x @ ?R) = Inr (x, ?R)"
      using Cons.prems n Nil by (intro Cons.prems(1)) (simp_all add: ends_value_indent)
    moreover have "skip_ws ?R = CHR '']'' # rest"
      by (simp add: skip_ws_indent skip_ws_start is_ws_def newline_def)
    ultimately show ?thesis
      by (simp add: n Nil)
  next
    case (Cons y ys)
    let ?T = "str_join (CHR '','' # newline_indent (Suc l)) (map (iterencode (Suc l)) (y # ys)) @
                newline_indent l @ CHR '']'' # rest"
    let ?R = "CHR '','' # newline_indent (Suc l) @ ?T"
    have T: "str_join (CHR '','' # newline_indent (Suc l)) (map (iterencode (Suc l)) (x # xs)) @
                newline_indent l @ CHR '']'' # rest = iterencode (Suc l) x @ ?R"
      by (simp add: Cons)
    have len: "length ?T + 1 < m"
      using Cons.prems(4) length_value[of "Suc l" x] unfolding T n
      by (simp add: length_indent)
    have "scan_once m (iterencode (Suc l) x @ ?R) = Inr (x, ?R)"
      using Cons.prems(3) Cons.prems(4) unfolding T n
      by (intro Cons.prems(1)) (simp_all add: ends_value_comma)
    moreover have "skip_ws ?R = ?R"
      by (simp add: skip_ws_start is_ws_def newline_def)
    moreover have "skip_ws (newline_indent (Suc l) @ ?T) = ?T"
      using skip_ws_value[of "Suc l" y] by (cases ys) (simp_all add: skip_ws_indent)
    moreover have "JSONArray_loop m ?T = Inr (xs, rest)"
      unfolding Cons[symmetric]
      using Cons.prems(3) len Cons
      by (intro Cons.IH) (simp_all add: Cons.prems(1))
    ultimately show ?thesis
      unfolding T n by simp
  qed
qed

lemma dict_set_fresh: "k \<notin> set (map fst d) \<Longrightarrow> dict_set d k v = d @ [(k, v)]"
  by (induction d) auto

lemma py_dict_foldl:
  "distinct (map fst (d @ pairs)) \<Longrightarrow>
   foldl (\<lambda>d kv. dict_set d (fst kv) (snd kv)) d pairs = d @ pairs"
proof (induction pairs arbitrary: d)
  case Nil
  show ?case by simp
next
  case (Cons kv pairs)
  have "dict_set d (fst kv) (snd kv) = d @ [kv]"
    using Cons.prems by (intro dict_set_fresh[THEN trans]) auto
  moreover have "distinct (map fst ((d @ [kv]) @ pairs))"
    using Cons.prems by simp
  ultimately show ?case
    using Cons.IH[of "d @ [kv]"] by simp
qed

lemma py_dict_distinct: "distinct (map fst pairs) \<Longrightarrow> py_dict pairs = pairs"
  using py_dict_foldl[of "[]" pairs] by (simp add: py_dict_def)

lemma members_first:
  "kvs \<noteq> [] \<Longrightarrow>
   \<exists>U. str_join sep (map (\<lambda>kv. encode_basestring (fst kv) @ f kv) kvs) @ R = quote # U"
proof (cases kvs)
  case (Cons kv ys)
  then show ?thesis by (cases ys) (simp_all add: encode_basestring_def)
qed simp

lemma object_loop:
  assumes ih: "\<And>kv l n rest. kv \<in> set kvs \<Longrightarrow> json_wf (snd kv) \<Longrightarrow> ends_value rest \<Longrightarrow>
      length (iterencode l (snd kv) @ rest) < n \<Longrightarrow>
      scan_once n (iterencode l (snd kv) @ rest) = Inr (snd kv, rest)"
    and "kvs \<noteq> []" and "list_all (\<lambda>kv. json_wf (snd kv)) kvs"
    and "quote # U =
           str_join (CHR '','' # newline_indent (Suc l))
             (map (\<lambda>kv. encode_basestring (fst kv) @ '': '' @ iterencode (Suc l) (snd kv)) kvs) @
           newline_indent l @ CHR ''}'' # rest"
    and "length U < n"
  shows "JSONObject_loop n U = Inr (kvs, rest)"
  using assms
proof (induction kvs arbitrary: n U)
  case Nil
  then show ?case by simp
next
  case (Cons kv kvs)
  obtain m where n: "n = Suc m" using Cons.prems(5) by (cases n) auto
  obtain k v where kv: "kv = (k, v)" by (cases kv)
  have wf: "json_wf v" using Cons.prems(3) kv by simp
  show ?case
  proof (cases kvs)
    case Nil
    let ?R = "newline_indent l @ CHR ''}'' # rest"
    have U: "U = concat (map escape_char k) @ quote # CHR '':'' # CHR '' '' # iterencode (Suc l) v @ ?R"
      using Cons.prems(4) by (simp add: Nil kv encode_basestring_def)
    have "scan_once m (iterencode (Suc l) v @ ?R) = Inr (v, ?R)"
      using Cons.prems(1)[of kv "?R" "Suc l" m] wf Cons.prems(5)
      by (simp add: kv ends_value_indent U n)
    moreover have "skip_ws ?R = CHR ''}'' # rest"
      by (simp add: skip_ws_indent skip_ws_start is_ws_def newline_def)
    moreover have "skip_ws (CHR '' '' # iterencode (Suc l) v @ ?R) = iterencode (Suc l) v @ ?R"
      using skip_ws_value[of "Suc l" v ?R] by (simp add: skip_ws_def is_ws_def)
    moreover have "skip_ws (CHR '':'' # CHR '' '' # iterencode (Suc l) v @ ?R) =
        CHR '':'' # CHR '' '' # iterencode (Suc l) v @ ?R"
      by (simp add: skip_ws_start is_ws_def newline_def)
    ultimately show ?thesis
      by (simp add: n U scanstring_escaped kv Nil)
  next
    case (Cons kv2 kvs2)
    let ?J = "str_join (CHR '','' # newline_indent (Suc l))
             (map (\<lambda>kv. encode_basestring (fst kv) @ '': '' @ iterencode (Suc l) (snd kv)) kvs) @
           newline_indent l @ CHR ''}'' # rest"
    obtain U2 where U2: "?J = quote # U2"
      using members_first[where kvs = kvs and f = "\<lambda>kv. '': '' @ iterencode (Suc l) (snd kv)"] Cons
      by blast
    let ?R = "CHR '','' # newline_indent (Suc l) @ quote # U2"
    have U: "U = concat (map escape_char k) @ quote # CHR '':'' # CHR '' '' # iterencode (Suc l) v @ ?R"
      using Cons.prems(4) U2 by (simp add: Cons kv encode_basestring_def)
    have "scan_once m (iterencode (Suc l) v @ ?R) = Inr (v, ?R)"
      using Cons.prems(1)[of kv "?R" "Suc l" m] wf Cons.prems(5)
      by (simp add: kv ends_value_comma U n)
    moreover have "skip_ws ?R = ?R"
      by (simp add: skip_ws_start is_ws_def newline_def)
    moreover have "skip_ws (newline_indent (Suc l) @ quote # U2) = quote # U2"
      by (simp add: skip_ws_indent skip_ws_start is_ws_def newline_def quote_def)
    moreover have "skip_ws (CHR '' '' # iterencode (Suc l) v @ ?R) = iterencode (Suc l) v @ ?R"
      using skip_ws_value[of "Suc l" v ?R] by (simp add: skip_ws_def is_ws_def)
    moreover have "skip_ws (CHR '':'' # CHR '' '' # iterencode (Suc l) v @ ?R) =
        CHR '':'' # CHR '' '' # iterencode (Suc l) v @ ?R"
      by (simp add: skip_ws_start is_ws_def newline_def)
    moreover have "JSONObject_loop m U2 = Inr (kvs, rest)"
    proof (rule Cons.IH)
      show "kvs \<noteq> []" by (simp add: Cons)
      show "list_all (\<lambda>kv. json_wf (snd kv)) kvs" using Cons.prems(3) by simp
      show "quote # U2 = ?J" using U2 by simp
      show "length U2 < m" using Cons.prems(5) unfolding U n by simp
      show "\<And>kv l n rest. kv \<in> set kvs \<Longrightarrow> json_wf (snd kv) \<Longrightarrow> ends_value rest \<Longrightarrow>
        length (iterencode l (snd kv) @ rest) < n \<Longrightarrow>
        scan_once n (iterencode l (snd kv) @ rest) = Inr (snd kv, rest)"
        by (rule Cons.prems(1)) simp_all
    qed
    ultimately show ?thesis
      by (simp add: n U scanstring_escaped kv)
  qed
qed

lemma scan_once_iterencode:
  "json_wf v \<Longrightarrow> ends_value rest \<Longrightarrow> length (iterencode l v @ rest) < n \<Longrightarrow>
   scan_once n (iterencode l v @ rest) = Inr (v, rest)"
proof (induction v arbitrary: l n rest)
  case JNull
  then obtain m where "n = Suc m" by (cases n) auto
  then show ?case using scan_once_null by simp
next
  case (JBool b)
  then obtain m where "n = Suc m" by (cases n) auto
  then show ?case using scan_once_true[of m rest] scan_once_false[of m rest] by (cases b) simp_all
next
  case (JInt i)
  then obtain m where "n = Suc m" by (cases n) auto
  then show ?case using scan_once_int[OF JInt(2)] by simp
next
  case (JStr s)
  then obtain m where "n = Suc m" by (cases n) auto
  then show ?case using scan_once_str by simp
next
  case (JArr xs)
  obtain m where n: "n = Suc m" using JArr.prems(3) by (cases n) auto
  show ?case
  proof (cases "xs = []")
    case True
    then show ?thesis by (simp add: n quote_def skip_ws_def is_ws_def newline_def)
  next
    case False
    let ?T = "str_join (CHR '','' # newline_indent (Suc l)) (map (iterencode (Suc l)) xs) @
              newline_indent l @ CHR '']'' # rest"
    obtain x ys where xs: "xs = x # ys" using False by (cases xs) auto
    obtain d r1 where T: "?T = d # r1" and d: "d \<noteq> CHR '']''" "\<not> is_ws d"
      using iterencode_first[of "Suc l" x] by (cases ys) (auto simp: xs)
    have skip: "skip_ws (newline_indent (Suc l) @ ?T) = d # r1"
      using d by (simp add: skip_ws_indent T skip_ws_start)
    have "JSONArray_loop m ?T = Inr (xs, rest)"
    proof (rule array_loop)
      show "xs \<noteq> []" by fact
      show "list_all json_wf xs" using JArr.prems(1) by simp
      show "length ?T + 1 < m" using JArr.prems(3) False by (simp add: n length_indent)
      show "\<And>x l n rest. x \<in> set xs \<Longrightarrow> json_wf x \<Longrightarrow> ends_value rest \<Longrightarrow>
        length (iterencode l x @ rest) < n \<Longrightarrow> scan_once n (iterencode l x @ rest) = Inr (x, rest)"
        by (rule JArr.IH)
    qed
    then show ?thesis
      using False d skip by (simp add: n quote_def T)
  qed
next
  case (JObj kvs)
  obtain m where n: "n = Suc m" using JObj.prems(3) by (cases n) auto
  show ?case
  proof (cases "kvs = []")
    case True
    then show ?thesis by (simp add: n quote_def skip_ws_def is_ws_def newline_def)
  next
    case False
    let ?T = "str_join (CHR '','' # newline_indent (Suc l))
             (map (\<lambda>kv. encode_basestring (fst kv) @ '': '' @ iterencode (Suc l) (snd kv)) kvs) @
           newline_indent l @ CHR ''}'' # rest"
    obtain kv ys where kvs: "kvs = kv # ys" using False by (cases kvs) auto
    obtain U where T: "?T = quote # U"
      using members_first[OF False, where f = "\<lambda>kv. '': '' @ iterencode (Suc l) (snd kv)"]
      by blast
    have "skip_ws (quote # U) = quote # U"
      by (simp add: skip_ws_start is_ws_def quote_def newline_def)
    then have skip: "skip_ws (newline_indent (Suc l) @ ?T) = quote # U"
      unfolding skip_ws_indent T .
    have "JSONObject_loop m U = Inr (kvs, rest)"
    proof (rule object_loop)
      show "kvs \<noteq> []" by fact
      show "list_all (\<lambda>kv. json_wf (snd kv)) kvs" using JObj.prems(1) by simp
      show "quote # U = ?T" using T by simp
      have "Suc (length U) = length ?T"
        using arg_cong[OF T, of length] by simp
      then show "length U < m"
        using JObj.prems(3) False by (simp add: n length_indent)
      show "\<And>kv l n rest. kv \<in> set kvs \<Longrightarrow> json_wf (snd kv) \<Longrightarrow> ends_value rest \<Longrightarrow>
        length (iterencode l (snd kv) @ rest) < n \<Longrightarrow>
        scan_once n (iterencode l (snd kv) @ rest) = Inr (snd kv, rest)"
        by (rule JObj.IH[of _ "snd kv" for kv]) (auto simp: snds.simps)
    qed
    moreover have "py_dict kvs = kvs"
      using JObj.prems(1) by (simp add: py_dict_distinct)
    ultimately show ?thesis
      using False skip by (simp add: n quote_def T)
  qed
qed

lemma json_loads_dumps: "json_wf v \<Longrightarrow> json_loads (json_dumps v) = Inr v"
  using scan_once_iterencode[of v "[]" 0 "2 * length (json_dumps v) + 1"]
    skip_ws_value[of 0 v "[]"]
  by (simp add: json_loads_def json_dumps_def ends_value_Nil skip_ws_def)

section \<open>Files are read back\<close>

lemma utf8_decode_step:
  "utf8_decode (utf8_encode_char c @ r) =
     (case utf8_decode r of Inl e \<Rightarrow> Inl e | Inr t \<Rightarrow> Inr (c # t))"
proof (cases "of_char c < (128::nat)")
  case True
  then show ?thesis by (simp add: utf8_encode_char_def)
next
  case False
  define n where "n = (of_char c :: nat)"
  have n: "128 \<le> n" "n < 256"
    using False by (simp_all add: n_def)
  define b1 where "b1 = char_of (192 + n div 64)"
  define b2 where "b2 = char_of (128 + n mod 64)"
  have d: "n div 64 = 2 \<or> n div 64 = 3"
    using n by auto
  have v1: "(of_char b1 :: nat) = 192 + n div 64"
    using d by (auto simp: b1_def)
  have v2: "(of_char b2 :: nat) = 128 + n mod 64"
    by (simp add: b2_def)
  have r1: "\<not> of_char b1 < (128::nat)" "(194::nat) \<le> of_char b1" "of_char b1 < (224::nat)"
    "of_char b1 < (196::nat)"
    using d by (auto simp: v1)
  have r2: "(128::nat) \<le> of_char b2" "of_char b2 < (192::nat)"
    by (simp_all add: v2)
  have cp: "char_of ((of_char b1 - 192) * 64 + of_char b2 - 128 :: nat) = c"
    by (simp add: v1 v2 n_def)
  have enc: "utf8_encode_char c = [b1, b2]"
    using False by (simp add: utf8_encode_char_def n_def Let_def b1_def b2_def)
  show ?thesis
    unfolding enc by (simp add: r1 r2 cp split: sum.splits)
qed

lemma utf8_encode_Cons: "utf8_encode (c # s) = utf8_encode_char c @ utf8_encode s"
  by (simp add: utf8_encode_def)

lemma utf8_decode_encode: "utf8_decode (utf8_encode s) = Inr s"
proof (induction s)
  case Nil
  show ?case by (simp add: utf8_encode_def)
next
  case (Cons c s)
  show ?case
    unfolding utf8_encode_Cons utf8_decode_step Cons.IH by simp
qed

lemma inj_utf8_encode:
  assumes "utf8_encode s = utf8_encode t"
  shows "s = t"
proof -
  have "utf8_decode (utf8_encode s) = utf8_decode (utf8_encode t)"
    using assms by (rule arg_cong)
  then show ?thesis
    unfolding utf8_decode_encode by simp
qed

lemma decode_text_written: "decode_text enc (utf8_encode s) = Inr (reread enc s)"
  by (cases enc) (simp_all add: decode_text_def reread_def utf8_decode_encode)

lemma inj_reread: "reread enc s = reread enc t \<Longrightarrow> s = t"
  by (cases enc) (auto simp: reread_def dest: inj_utf8_encode)

lemma utf8_encode_append: "utf8_encode (a @ b) = utf8_encode a @ utf8_encode b"
  by (simp add: utf8_encode_def)

lemma utf8_encode_ascii: "\<forall>c \<in> set s. of_char c < (128::nat) \<Longrightarrow> utf8_encode s = s"
  by (induction s) (simp_all add: utf8_encode_def utf8_encode_char_def)

lemma utf8_encode_join:
  "utf8_encode (str_join sep ts) = str_join (utf8_encode sep) (map utf8_encode ts)"
  by (induction sep ts rule: str_join.induct) (simp_all add: utf8_encode_append, simp add: utf8_encode_def)

lemma ascii_indent: "\<forall>c \<in> set (newline_indent l). of_char c < (128::nat)"
  by (auto simp: newline_indent_def newline_def)

lemma ascii_digit: "is_digit c \<Longrightarrow> of_char c < (128::nat)"
  by (auto simp: is_digit_def)

lemma ascii_str_of_nat: "\<forall>c \<in> set (str_of_nat n). of_char c < (128::nat)"
  using str_of_nat_digits[of n] by (simp add: list_all_iff ascii_digit)

lemma ascii_int_repr: "\<forall>c \<in> set (int_repr i). of_char c < (128::nat)"
proof (cases "i < 0")
  case True
  then have r: "int_repr i = CHR ''-'' # str_of_nat (nat (- i))"
    unfolding int_repr_def by (rule if_P)
  have "\<forall>c \<in> set (CHR ''-'' # s). of_char c < (128::nat)"
    if "\<forall>c \<in> set s. of_char c < (128::nat)" for s
    using that by simp
  from this[OF ascii_str_of_nat] show ?thesis
    unfolding r .
next
  case False
  then have r: "int_repr i = str_of_nat (nat i)"
    unfolding int_repr_def by (rule if_not_P)
  show ?thesis
    unfolding r by (rule ascii_str_of_nat)
qed

lemma utf8_byte_high:
  "128 \<le> (of_char c :: nat) \<Longrightarrow> \<forall>b \<in> set (utf8_encode_char c). 128 \<le> (of_char b :: nat)"
proof -
  assume h: "128 \<le> (of_char c :: nat)"
  define n where "n = (of_char c :: nat)"
  have "128 \<le> n" "n < 256"
    using h by (simp_all add: n_def)
  then have "n div 64 = 2 \<or> n div 64 = 3" by auto
  then have "128 \<le> (of_char (char_of (192 + n div 64)) :: nat)"
    by auto
  with h show ?thesis
    by (simp add: utf8_encode_char_def Let_def n_def)
qed

lemma escape_char_high:
  assumes "128 \<le> (of_char c :: nat)"
  shows "escape_char c = [c]"
proof -
  have ne: "c \<noteq> d" if "of_char d < (128::nat)" for d
    using that assms by auto
  have "c \<noteq> backslash" "c \<noteq> quote" "c \<noteq> CHR 0x08" "c \<noteq> CHR 0x0C" "c \<noteq> newline"
    "c \<noteq> CHR 0x0D" "c \<noteq> CHR 0x09"
    by (rule ne, simp add: backslash_def quote_def newline_def)+
  moreover have "\<not> of_char c < (32::nat)"
    using assms by simp
  ultimately show ?thesis
    by (simp add: escape_char_def)
qed

lemma ascii_hex_digit: "k < 16 \<Longrightarrow> (of_char (hex_digit k) :: nat) < 128"
  by (auto simp: hex_digit_def)

lemma escape_char_ascii:
  assumes "of_char c < (128::nat)"
  shows "\<forall>d \<in> set (escape_char c). of_char d < (128::nat)"
proof -
  have "of_char c div 16 < (16::nat)" "of_char c mod 16 < (16::nat)"
    using assms by auto
  then show ?thesis
    using assms by (auto simp: escape_char_def backslash_def quote_def ascii_hex_digit)
qed

lemma utf8_encode_escape:
  "utf8_encode (escape_char c) = concat (map escape_char (utf8_encode_char c))"
proof (cases "of_char c < (128::nat)")
  case True
  then show ?thesis
    using utf8_encode_ascii[OF escape_char_ascii[OF True]]
    by (simp add: utf8_encode_char_def)
next
  case False
  then have h: "128 \<le> (of_char c :: nat)" by simp
  have "concat (map escape_char bs) = bs" if "\<forall>b \<in> set bs. 128 \<le> (of_char b :: nat)" for bs
    using that by (induction bs) (simp_all add: escape_char_high)
  from this[OF utf8_byte_high[OF h]] show ?thesis
    by (simp add: escape_char_high[OF h] utf8_encode_def)
qed

lemma utf8_encode_escaped:
  "utf8_encode (concat (map escape_char s)) = concat (map escape_char (utf8_encode s))"
proof (induction s)
  case Nil
  show ?case by (simp add: utf8_encode_def)
next
  case (Cons c s)
  have "utf8_encode (concat (map escape_char (c # s))) =
        utf8_encode (escape_char c) @ utf8_encode (concat (map escape_char s))"
    by (simp add: utf8_encode_append)
  also have "\<dots> = concat (map escape_char (utf8_encode_char c)) @
                   concat (map escape_char (utf8_encode s))"
    by (simp only: utf8_encode_escape Cons.IH)
  also have "\<dots> = concat (map escape_char (utf8_encode (c # s)))"
    by (simp add: utf8_encode_Cons)
  finally show ?case .
qed

lemma utf8_encode_quote: "utf8_encode [quote] = [quote]"
  by (simp add: utf8_encode_def utf8_encode_char_def quote_def)

lemma utf8_encode_basestring:
  "utf8_encode (encode_basestring s) = encode_basestring (utf8_encode s)"
proof -
  have "encode_basestring s = [quote] @ concat (map escape_char s) @ [quote]" for s
    by (simp add: encode_basestring_def)
  then show ?thesis
    by (simp only: utf8_encode_append utf8_encode_quote utf8_encode_escaped)
qed

lemma utf8_encode_indent: "utf8_encode (newline_indent l) = newline_indent l"
  by (rule utf8_encode_ascii[OF ascii_indent])

lemma utf8_encode_sep:
  "utf8_encode (CHR '','' # newline_indent l) = CHR '','' # newline_indent l"
  using ascii_indent[of l] by (intro utf8_encode_ascii) simp

lemma utf8_encode_Cons_ascii:
  "of_char c < (128::nat) \<Longrightarrow> utf8_encode (c # s) = c # utf8_encode s"
  by (simp add: utf8_encode_def utf8_encode_char_def)

lemma utf8_encode_Nil: "utf8_encode [] = []"
  by (simp add: utf8_encode_def)

lemma utf8_encode_iterencode:
  "utf8_encode (iterencode l v) = iterencode l (jmap utf8_encode v)"
proof (induction v arbitrary: l)
  case (JInt i)
  show ?case by (simp add: utf8_encode_ascii[OF ascii_int_repr])
next
  case (JStr s)
  show ?case by (simp add: utf8_encode_basestring)
next
  case (JArr xs)
  have "map (\<lambda>x. utf8_encode (iterencode (Suc l) x)) xs =
        map (\<lambda>x. iterencode (Suc l) (jmap utf8_encode x)) xs"
    using JArr.IH by simp
  then show ?case
    by (simp add: utf8_encode_append utf8_encode_join utf8_encode_indent utf8_encode_sep
        utf8_encode_Cons_ascii utf8_encode_Nil comp_def cong: map_cong)
next
  case (JObj kvs)
  have "map (\<lambda>kv. utf8_encode
                 (encode_basestring (fst kv) @ CHR '':'' # CHR '' '' # iterencode (Suc l) (snd kv))) kvs =
        map (\<lambda>kv. encode_basestring (utf8_encode (fst kv)) @
                 CHR '':'' # CHR '' '' # iterencode (Suc l) (jmap utf8_encode (snd kv))) kvs"
    using JObj.IH
    by (auto simp: utf8_encode_append utf8_encode_basestring utf8_encode_Cons_ascii snds.simps)
  then show ?case
    by (simp add: utf8_encode_append utf8_encode_join utf8_encode_indent utf8_encode_sep
        utf8_encode_Cons_ascii utf8_encode_Nil comp_def cong: map_cong)
qed (simp_all add: utf8_encode_Cons_ascii utf8_encode_Nil)

lemma json_wf_jmap:
  assumes inj: "\<And>s t. f s = f t \<Longrightarrow> s = t"
  shows "json_wf v \<Longrightarrow> json_wf (jmap f v)"
proof (induction v)
  case (JArr xs)
  then show ?case by (auto simp: list_all_iff)
next
  case (JObj kvs)
  have "inj_on f (set (map fst kvs))"
    using inj by (auto simp: inj_on_def)
  moreover have "distinct (map fst kvs)"
    using JObj.prems by simp
  ultimately have "distinct (map f (map fst kvs))"
    unfolding distinct_map[of f "map fst kvs"] by blast
  then show ?case
    using JObj by (auto simp: list_all_iff comp_def snds.simps)
qed simp_all

lemma jmap_id: "jmap (\<lambda>s. s) v = v"
  by (induction v) (auto simp: map_idI snds.simps)

lemma reread_dumps: "reread enc (json_dumps v) = json_dumps (jmap (reread enc) v)"
proof (cases enc)
  case UTF_8
  then have "reread enc = (\<lambda>s. s)" by (auto simp: reread_def)
  then show ?thesis by (simp add: jmap_id)
next
  case Latin_1
  then have "reread enc = utf8_encode" by (auto simp: reread_def)
  then show ?thesis by (simp add: json_dumps_def utf8_encode_iterencode)
qed

lemma json_loads_reread:
  assumes "json_wf v"
  shows "json_loads (reread enc (json_dumps v)) = Inr (jmap (reread enc) v)"
  unfolding reread_dumps
  by (rule json_loads_dumps, rule json_wf_jmap[OF inj_reread assms])

lemma load_after_save:
  assumes "json_wf doc"
  shows "load_people e (save_people e w file_name doc) file_name =
           (if validation (jmap (reread (encoding e)) doc)
            then Inr (Some (jmap (reread (encoding e)) doc)) else Inr None)"
  by (simp add: load_people_def save_people_def decode_text_written json_loads_reread[OF assms])

lemma load_after_save_utf8:
  assumes "json_wf doc" and "encoding e = UTF_8"
  shows "load_people e (save_people e w file_name doc) file_name =
           (if validation doc then Inr (Some doc) else Inr None)"
proof -
  have "reread (encoding e) = (\<lambda>s. s)"
    using assms(2) by (auto simp: reread_def)
  then show ?thesis
    using load_after_save[OF assms(1), of e w file_name] by (simp add: jmap_id)
qed

section \<open>The reader never runs out of calls\<close>

lemma scanstring_cases:
  assumes "scanstring (c # r') = Inr (t, r)"
  shows "r = r' \<or> (\<exists>r2 t2. scanstring r2 = Inr (t2, r) \<and> length r2 \<le> length r')"
proof (cases "c = quote")
  case True
  with assms show ?thesis by simp
next
  case nq: False
  show ?thesis
  proof (cases "c = backslash")
    case False
    with assms nq show ?thesis
      by (auto split: if_splits sum.splits)
  next
    case True
    then obtain esc r1 where r': "r' = esc # r1"
      using assms nq by (cases r') auto
    show ?thesis
    proof (cases "esc = CHR ''u''")
      case False
      with assms nq True r' show ?thesis
        by (auto split: option.splits sum.splits)
    next
      case u: True
      then obtain a b x y r2 where r1: "r1 = a # b # x # y # r2"
        using assms nq True r' by (auto split: list.splits)
      have "\<exists>t2. scanstring r2 = Inr (t2, r)"
        using assms nq True r' u r1
        by (simp split: option.splits if_splits sum.splits prod.splits add: Let_def)
      then show ?thesis
        using r' r1 by auto
    qed
  qed
qed

lemma scanstring_shorter: "scanstring s = Inr (t, r) \<Longrightarrow> length r < length s"
proof (induction "length s" arbitrary: s t rule: less_induct)
  case less
  show ?case
  proof (cases s)
    case Nil
    with less.prems show ?thesis by simp
  next
    case (Cons c r')
    from scanstring_cases[OF less.prems[unfolded Cons]]
    show ?thesis
    proof
      assume "r = r'"
      then show ?thesis by (simp add: Cons)
    next
      assume "\<exists>r2 t2. scanstring r2 = Inr (t2, r) \<and> length r2 \<le> length r'"
      then obtain r2 t2 where "scanstring r2 = Inr (t2, r)" "length r2 \<le> length r'"
        by blast
      with less.hyps[of r2 t2] show ?thesis
        by (simp add: Cons)
    qed
  qed
qed


lemma scanstring_error_cases:
  assumes "scanstring (c # r') = Inl e"
  shows "e \<noteq> OutOfFuel \<or> (\<exists>r2. scanstring r2 = Inl e \<and> length r2 \<le> length r')"
proof (cases "c = quote")
  case True
  with assms show ?thesis by simp
next
  case nq: False
  show ?thesis
  proof (cases "c = backslash")
    case False
    with assms nq show ?thesis
      by (auto split: if_splits sum.splits)
  next
    case True
    show ?thesis
    proof (cases r')
      case Nil
      with assms nq True show ?thesis by auto
    next
      case (Cons esc r1)
      show ?thesis
      proof (cases "esc = CHR ''u''")
        case False
        with assms nq True Cons show ?thesis
          by (auto split: option.splits sum.splits)
      next
        case u: True
        show ?thesis
        proof (cases "\<exists>a b x y r2. r1 = a # b # x # y # r2")
          case False
          then have "scanstring (c # r') = Inl JSONDecodeError"
            using nq True Cons u by (auto split: list.splits)
          with assms show ?thesis by simp
        next
          case True
          then obtain a b x y r2 where r1: "r1 = a # b # x # y # r2" by blast
          have "e \<noteq> OutOfFuel \<or> scanstring r2 = Inl e"
            using assms nq \<open>c = backslash\<close> Cons u r1
            by (simp split: option.splits if_splits sum.splits prod.splits add: Let_def)
          then show ?thesis
            using Cons r1 by auto
        qed
      qed
    qed
  qed
qed

lemma scanstring_fuel: "scanstring s \<noteq> Inl OutOfFuel"
proof (induction "length s" arbitrary: s rule: less_induct)
  case less
  show ?case
  proof (cases s)
    case Nil
    then show ?thesis by simp
  next
    case (Cons c r')
    show ?thesis
    proof
      assume a: "scanstring s = Inl OutOfFuel"
      from scanstring_error_cases[OF a[unfolded Cons]]
      obtain r2 where "scanstring r2 = Inl OutOfFuel" "length r2 \<le> length r'"
        by blast
      with less.hyps[of r2] show False
        by (simp add: Cons)
    qed
  qed
qed

lemma skip_ws_shorter: "skip_ws s = d # r \<Longrightarrow> length r < length s"
  using length_dropWhile_le[of is_ws s] by (simp add: skip_ws_def)

lemma skip_ws_le: "length (skip_ws s) \<le> length s"
  by (simp add: skip_ws_def length_dropWhile_le)

lemma scan_integer_shorter: "scan_integer s = Some (i, r) \<Longrightarrow> length r < length s"
proof -
  assume a: "scan_integer s = Some (i, r)"
  define sign where "sign = takeWhile (\<lambda>c. c = CHR ''-'') (take 1 s)"
  obtain c r0 where s1: "drop (length sign) s = c # r0"
    using a by (cases "drop (length sign) s") (auto simp: scan_integer_def Let_def sign_def)
  have "length r \<le> length r0"
    using a s1 length_dropWhile_le[of is_digit r0]
    by (auto simp: scan_integer_def Let_def sign_def split: if_splits)
  moreover have "length (c # r0) \<le> length s"
    using arg_cong[OF s1, of length] by simp
  ultimately show ?thesis by simp
qed

lemma scan_consumes:
  "(\<forall>s v r. scan_once n s = Inr (v, r) \<longrightarrow> length r < length s) \<and>
   (\<forall>s vs r. JSONArray_loop n s = Inr (vs, r) \<longrightarrow> length r < length s) \<and>
   (\<forall>s ps r. JSONObject_loop n s = Inr (ps, r) \<longrightarrow> length r < length s)"
proof (induction n)
  case 0
  show ?case by simp
next
  case (Suc n)
  then have ih1: "\<And>s v r. scan_once n s = Inr (v, r) \<Longrightarrow> length r < length s"
    and ih2: "\<And>s vs r. JSONArray_loop n s = Inr (vs, r) \<Longrightarrow> length r < length s"
    and ih3: "\<And>s ps r. JSONObject_loop n s = Inr (ps, r) \<Longrightarrow> length r < length s"
    by blast+
  have 1: "length r < length s" if a: "scan_once (Suc n) s = Inr (v, r)" for s v r
  proof (cases s)
    case Nil
    with a show ?thesis by simp
  next
    case (Cons c r0)
    consider (str) "c = quote" | (obj) "c \<noteq> quote" "c = CHR ''{''"
      | (arr) "c \<noteq> quote" "c \<noteq> CHR ''{''" "c = CHR ''[''"
      | (other) "c \<noteq> quote" "c \<noteq> CHR ''{''" "c \<noteq> CHR ''[''"
      by blast
    then show ?thesis
    proof cases
      case str
      with a Cons obtain t where "scanstring r0 = Inr (t, r)"
        by (auto split: sum.splits)
      from scanstring_shorter[OF this] show ?thesis by (simp add: Cons)
    next
      case obj
      with a Cons obtain d r1 where d: "skip_ws r0 = d # r1"
        by (cases "skip_ws r0") auto
      from skip_ws_shorter[OF d] have l: "length r1 < length r0" .
      from a Cons obj d have "r = r1 \<or> (\<exists>ps. JSONObject_loop n r1 = Inr (ps, r))"
        by (auto split: if_splits sum.splits)
      with ih3[of r1 _ r] l show ?thesis by (auto simp: Cons)
    next
      case arr
      with a Cons obtain d r1 where d: "skip_ws r0 = d # r1"
        by (cases "skip_ws r0") auto
      from skip_ws_shorter[OF d] have l: "length r1 < length r0" .
      from a Cons arr d have "r = r1 \<or> (\<exists>vs. JSONArray_loop n (d # r1) = Inr (vs, r))"
        by (auto split: if_splits sum.splits)
      with ih2[of "d # r1" _ r] l show ?thesis by (auto simp: Cons)
    next
      case other
      have lit: "length (drop k s) < length s" if "0 < k" for k
        using that Cons by simp
      consider (null) "take 4 s = ''null''"
        | (true) "take 4 s \<noteq> ''null''" "take 4 s = ''true''"
        | (false) "take 4 s \<noteq> ''null''" "take 4 s \<noteq> ''true''" "take 5 s = ''false''"
        | (num) "take 4 s \<noteq> ''null''" "take 4 s \<noteq> ''true''" "take 5 s \<noteq> ''false''"
        by blast
      then show ?thesis
      proof cases
        case null
        have "scan_once (Suc n) s = Inr (JNull, drop 4 s)"
          unfolding Cons using other null[unfolded Cons] by auto
        with a lit[of 4] show ?thesis by simp
      next
        case true
        have "scan_once (Suc n) s = Inr (JBool True, drop 4 s)"
          unfolding Cons using other true[unfolded Cons] by auto
        with a lit[of 4] show ?thesis by simp
      next
        case false
        have "scan_once (Suc n) s = Inr (JBool False, drop 5 s)"
          unfolding Cons using other false[unfolded Cons] by auto
        with a lit[of 5] show ?thesis by simp
      next
        case num
        have "scan_once (Suc n) s =
          (case scan_integer s of
             Some (integer, r1) \<Rightarrow>
               if has_frac r1 \<or> has_exp r1 then Inl NotModelled
               else Inr (JInt (parse_int integer), r1)
           | None \<Rightarrow>
               if take 3 s = ''NaN'' \<or> take 8 s = ''Infinity'' \<or> take 9 s = ''-Infinity''
               then Inl NotModelled
               else Inl JSONDecodeError)"
          unfolding Cons using other num[unfolded Cons] by auto
        with a obtain i where "scan_integer s = Some (i, r)"
          by (auto split: option.splits if_splits)
        then show ?thesis by (rule scan_integer_shorter)
      qed
    qed
  qed
  have 2: "length r < length s" if a: "JSONArray_loop (Suc n) s = Inr (vs, r)" for s vs r
  proof -
    from a obtain v r0 where v: "scan_once n s = Inr (v, r0)"
      by (auto split: sum.splits)
    from a v obtain c r1 where c: "skip_ws r0 = c # r1"
      by (cases "skip_ws r0") auto
    from a v c have "r = r1 \<or> (\<exists>vs'. JSONArray_loop n (skip_ws r1) = Inr (vs', r))"
      by (auto split: if_splits sum.splits)
    with ih1[OF v] skip_ws_shorter[OF c] ih2[of "skip_ws r1" _ r] skip_ws_le[of r1]
    show ?thesis by auto
  qed
  have 3: "length r < length s" if a: "JSONObject_loop (Suc n) s = Inr (ps, r)" for s ps r
  proof -
    from a obtain key r0 where k: "scanstring s = Inr (key, r0)"
      by (auto split: sum.splits)
    from a k obtain c r1 where c: "skip_ws r0 = c # r1"
      by (cases "skip_ws r0") auto
    from a k c obtain v r2 where v: "scan_once n (skip_ws r1) = Inr (v, r2)"
      by (auto split: if_splits sum.splits)
    from a k c v obtain d r3 where d: "skip_ws r2 = d # r3"
      by (cases "skip_ws r2") (auto split: if_splits)
    have l3: "length r3 < length s"
      using scanstring_shorter[OF k] skip_ws_shorter[OF c] ih1[OF v] skip_ws_le[of r1]
        skip_ws_shorter[OF d] by simp
    show ?thesis
    proof (cases "d = CHR ''}''")
      case True
      with a k c v d have "r = r3" by (auto split: if_splits)
      with l3 show ?thesis by simp
    next
      case False
      with a k c v d obtain q r4 where q: "skip_ws r3 = q # r4"
        by (cases "skip_ws r3") (auto split: if_splits)
      from a k c v d q False obtain ps' where "JSONObject_loop n r4 = Inr (ps', r)"
        by (auto split: if_splits sum.splits)
      from ih3[OF this] skip_ws_shorter[OF q] l3 show ?thesis by simp
    qed
  qed
  from 1 2 3 show ?case by blast
qed


lemmas scan_shorter = scan_consumes[THEN conjunct1, rule_format]
  and array_shorter = scan_consumes[THEN conjunct2, THEN conjunct1, rule_format]
  and object_shorter = scan_consumes[THEN conjunct2, THEN conjunct2, rule_format]

lemma scan_fuel:
  "(\<forall>s. 2 * length s < n \<longrightarrow> scan_once n s \<noteq> Inl OutOfFuel) \<and>
   (\<forall>s. 2 * length s + 1 < n \<longrightarrow> JSONArray_loop n s \<noteq> Inl OutOfFuel) \<and>
   (\<forall>s. 2 * length s < n \<longrightarrow> JSONObject_loop n s \<noteq> Inl OutOfFuel)"
proof (induction n)
  case 0
  show ?case by simp
next
  case (Suc n)
  then have ih1: "\<And>s. 2 * length s < n \<Longrightarrow> scan_once n s \<noteq> Inl OutOfFuel"
    and ih2: "\<And>s. 2 * length s + 1 < n \<Longrightarrow> JSONArray_loop n s \<noteq> Inl OutOfFuel"
    and ih3: "\<And>s. 2 * length s < n \<Longrightarrow> JSONObject_loop n s \<noteq> Inl OutOfFuel"
    by blast+
  have 1: "scan_once (Suc n) s \<noteq> Inl OutOfFuel" if b: "2 * length s < Suc n" for s
  proof
    assume a: "scan_once (Suc n) s = Inl OutOfFuel"
    then obtain c r0 where Cons: "s = c # r0" by (cases s) auto
    consider (str) "c = quote" | (obj) "c \<noteq> quote" "c = CHR ''{''"
      | (arr) "c \<noteq> quote" "c \<noteq> CHR ''{''" "c = CHR ''[''"
      | (other) "c \<noteq> quote" "c \<noteq> CHR ''{''" "c \<noteq> CHR ''[''"
      by blast
    then show False
    proof cases
      case str
      with a Cons have "scanstring r0 = Inl OutOfFuel"
        by (auto split: sum.splits)
      with scanstring_fuel show False by blast
    next
      case obj
      with a Cons obtain d r1 where d: "skip_ws r0 = d # r1"
        by (cases "skip_ws r0") auto
      from a Cons obj d have "JSONObject_loop n r1 = Inl OutOfFuel"
        by (auto split: if_splits sum.splits)
      moreover have "2 * length r1 < n"
        using skip_ws_shorter[OF d] b Cons by simp
      ultimately show False using ih3 by blast
    next
      case arr
      with a Cons obtain d r1 where d: "skip_ws r0 = d # r1"
        by (cases "skip_ws r0") auto
      from a Cons arr d have "JSONArray_loop n (d # r1) = Inl OutOfFuel"
        by (auto split: if_splits sum.splits)
      moreover have "2 * length (d # r1) + 1 < n"
        using skip_ws_shorter[OF d] b Cons by simp
      ultimately show False using ih2 by blast
    next
      case other
      consider (null) "take 4 s = ''null''"
        | (true) "take 4 s \<noteq> ''null''" "take 4 s = ''true''"
        | (false) "take 4 s \<noteq> ''null''" "take 4 s \<noteq> ''true''" "take 5 s = ''false''"
        | (num) "take 4 s \<noteq> ''null''" "take 4 s \<noteq> ''true''" "take 5 s \<noteq> ''false''"
        by blast
      then show False
      proof cases
        case null
        have "scan_once (Suc n) s = Inr (JNull, drop 4 s)"
          unfolding Cons using other null[unfolded Cons] by auto
        with a show False by simp
      next
        case true
        have "scan_once (Suc n) s = Inr (JBool True, drop 4 s)"
          unfolding Cons using other true[unfolded Cons] by auto
        with a show False by simp
      next
        case false
        have "scan_once (Suc n) s = Inr (JBool False, drop 5 s)"
          unfolding Cons using other false[unfolded Cons] by auto
        with a show False by simp
      next
        case num
        have "scan_once (Suc n) s =
          (case scan_integer s of
             Some (integer, r1) \<Rightarrow>
               if has_frac r1 \<or> has_exp r1 then Inl NotModelled
               else Inr (JInt (parse_int integer), r1)
           | None \<Rightarrow>
               if take 3 s = ''NaN'' \<or> take 8 s = ''Infinity'' \<or> take 9 s = ''-Infinity''
               then Inl NotModelled
               else Inl JSONDecodeError)"
          unfolding Cons using other num[unfolded Cons] by auto
        with a show False
          by (auto split: option.splits if_splits)
      qed
    qed
  qed
  have 2: "JSONArray_loop (Suc n) s \<noteq> Inl OutOfFuel" if b: "2 * length s + 1 < Suc n" for s
  proof
    assume a: "JSONArray_loop (Suc n) s = Inl OutOfFuel"
    have "scan_once n s \<noteq> Inl OutOfFuel"
      using ih1[of s] b by simp
    with a obtain v r0 where v: "scan_once n s = Inr (v, r0)"
      by (cases "scan_once n s") auto
    from a v obtain c r1 where c: "skip_ws r0 = c # r1"
      by (cases "skip_ws r0") auto
    from a v c have "JSONArray_loop n (skip_ws r1) = Inl OutOfFuel"
      by (auto split: if_splits sum.splits)
    moreover have "2 * length (skip_ws r1) + 1 < n"
      using scan_shorter[OF v] skip_ws_shorter[OF c] skip_ws_le[of r1] b by simp
    ultimately show False using ih2 by blast
  qed
  have 3: "JSONObject_loop (Suc n) s \<noteq> Inl OutOfFuel" if b: "2 * length s < Suc n" for s
  proof
    assume a: "JSONObject_loop (Suc n) s = Inl OutOfFuel"
    with scanstring_fuel[of s] obtain key r0 where k: "scanstring s = Inr (key, r0)"
      by (cases "scanstring s") auto
    from a k obtain c r1 where c: "skip_ws r0 = c # r1"
      by (cases "skip_ws r0") auto
    have l1: "length (skip_ws r1) + 2 \<le> length s"
      using scanstring_shorter[OF k] skip_ws_shorter[OF c] skip_ws_le[of r1] by simp
    then have "scan_once n (skip_ws r1) \<noteq> Inl OutOfFuel"
      using ih1[of "skip_ws r1"] b by simp
    with a k c obtain v r2 where v: "scan_once n (skip_ws r1) = Inr (v, r2)"
      by (cases "scan_once n (skip_ws r1)") (auto split: if_splits)
    from a k c v obtain d r3 where d: "skip_ws r2 = d # r3"
      by (cases "skip_ws r2") (auto split: if_splits)
    from a k c v d obtain q r4 where q: "skip_ws r3 = q # r4"
      by (cases "skip_ws r3") (auto split: if_splits)
    from a k c v d q have "JSONObject_loop n r4 = Inl OutOfFuel"
      by (auto split: if_splits sum.splits)
    moreover have "2 * length r4 < n"
      using l1 scan_shorter[OF v] skip_ws_shorter[OF d] skip_ws_shorter[OF q] b by simp
    ultimately show False using ih3 by blast
  qed
  from 1 2 3 show ?case by blast
qed

lemma json_loads_fuel: "json_loads s \<noteq> Inl OutOfFuel"
proof -
  have "2 * length (skip_ws s) < 2 * length s + 1"
    using skip_ws_le[of s] by simp
  with scan_fuel[of "2 * length s + 1"]
  have "scan_once (2 * length s + 1) (skip_ws s) \<noteq> Inl OutOfFuel"
    by blast
  then show ?thesis
    by (auto simp: json_loads_def split: sum.splits if_splits)
qed

section \<open>Saving and loading\<close>

lemma reread_ascii: "\<forall>c \<in> set s. of_char c < (128::nat) \<Longrightarrow> reread enc s = s"
  by (cases enc) (simp_all add: reread_def utf8_encode_ascii)

lemma add_person_wf:
  "list_all json_wf people \<Longrightarrow> json_wf (JArr (add_person people surname name zodiac birthday))"
  by (cases zodiac) (simp_all add: add_person_def list_all_iff)

lemma jmap_add_person_invalid:
  "\<not> validation (jmap (reread enc) (JArr (add_person people surname name None birthday)))"
proof -
  have "\<not> spec_person
      (jmap (reread enc)
         (JObj [(''surname'', JStr surname), (''name'', JStr name), (''zodiac'', JNull),
                (''birthday'', JArr (map JStr (str_split CHR ''.'' birthday)))]))"
    by (simp add: spec_person_def reread_ascii)
  then show ?thesis
    by (simp add: add_person_def validation_array)
qed

text \<open>
  C3 fails on the code where the preferred encoding of the platform is not UTF-8:
  \<^verbatim>\<open>save_people\<close> writes UTF-8, \<^verbatim>\<open>load_people\<close> decodes in the preferred encoding.
  Under ISO 8859-1 a valid collection with the surname \<^verbatim>\<open>U+00E9\<close> comes back, from the
  same path, with a surname of two characters. Under UTF-8 a valid collection is read
  back as it was saved (\<open>load_after_save_utf8\<close>).
\<close>

theorem save_then_load_other_encoding:
  "validation
     (JArr [JObj [(''surname'', JStr [CHR 0xE9]), (''name'', JStr ''Jane''),
                  (''birthday'', JArr [JStr ''15'', JStr ''03'', JStr ''1990''])]]) \<and>
   load_people \<lparr>home = ''/home/u'', cwd = ''/home/u'', encoding = Latin_1\<rparr>
     (save_people \<lparr>home = ''/home/u'', cwd = ''/home/u'', encoding = Latin_1\<rparr>
        \<lparr>files = Map.empty, writes = [], stdout = []\<rparr> ''p.json''
        (JArr [JObj [(''surname'', JStr [CHR 0xE9]), (''name'', JStr ''Jane''),
                     (''birthday'', JArr [JStr ''15'', JStr ''03'', JStr ''1990''])]]))
     ''p.json'' =
   Inr (Some
     (JArr [JObj [(''surname'', JStr [CHR 0xC3, CHR 0xA9]), (''name'', JStr ''Jane''),
                  (''birthday'', JArr [JStr ''15'', JStr ''03'', JStr ''1990''])]]))"
proof -
  let ?doc = "JArr [JObj [(''surname'', JStr [CHR 0xE9]), (''name'', JStr ''Jane''),
                  (''birthday'', JArr [JStr ''15'', JStr ''03'', JStr ''1990''])]]"
  let ?doc' = "JArr [JObj [(''surname'', JStr [CHR 0xC3, CHR 0xA9]), (''name'', JStr ''Jane''),
                  (''birthday'', JArr [JStr ''15'', JStr ''03'', JStr ''1990''])]]"
  have wf: "json_wf ?doc"
    by simp
  have e9: "utf8_encode [CHR 0xE9] = [CHR 0xC3, CHR 0xA9]"
    by code_simp
  have j: "jmap (reread Latin_1) ?doc = ?doc'"
    by (simp add: reread_def utf8_encode_ascii e9)
  have v: "validation ?doc" "validation ?doc'"
    by (simp_all add: validation_array spec_person_def)
  show ?thesis
    using v by (simp add: load_after_save[OF wf] j del: jmap.simps)
qed

text \<open>
  C10. Every record that \<^verbatim>\<open>add_person\<close> appends has the key \<open>zodiac\<close>; without the option
  its value is \<^verbatim>\<open>None\<close>. A collection with such a record fails validation, and when it
  is saved, \<^verbatim>\<open>load_people\<close> on the same path returns \<^verbatim>\<open>None\<close>.
\<close>

theorem add_without_zodiac_is_invalid:
  "(\<exists>r. add_person people surname name zodiac birthday = people @ [JObj r] \<and>
        map_of r ''zodiac'' = Some (case zodiac of None \<Rightarrow> JNull | Some z \<Rightarrow> JStr z)) \<and>
   \<not> validation (JArr (add_person people surname name None birthday)) \<and>
   (list_all json_wf people \<longrightarrow>
      load_people e
        (save_people e w file_name (JArr (add_person people surname name None birthday)))
        file_name = Inr None)"
proof (intro conjI impI)
  show "\<exists>r. add_person people surname name zodiac birthday = people @ [JObj r] \<and>
        map_of r ''zodiac'' = Some (case zodiac of None \<Rightarrow> JNull | Some z \<Rightarrow> JStr z)"
    by (simp add: add_person_def)
  show "\<not> validation (JArr (add_person people surname name None birthday))"
    by (simp add: add_person_def validation_array spec_person_def)
  assume "list_all json_wf people"
  then have "json_wf (JArr (add_person people surname name None birthday))"
    by (rule add_person_wf)
  from load_after_save[OF this, of e w file_name]
  show "load_people e
        (save_people e w file_name (JArr (add_person people surname name None birthday)))
        file_name = Inr None"
    by (simp add: jmap_add_person_invalid del: jmap.simps)
qed

theorem add_without_zodiac_is_invalid_witness:
  "list_all json_wf [] \<and>
   \<not> validation (JArr (add_person [] ''Doe'' ''Jane'' None ''15.03.1990'')) \<and>
   load_people \<lparr>home = ''/home/u'', cwd = ''/home/u'', encoding = UTF_8\<rparr>
     (save_people \<lparr>home = ''/home/u'', cwd = ''/home/u'', encoding = UTF_8\<rparr>
        \<lparr>files = Map.empty, writes = [], stdout = []\<rparr> ''p.json''
        (JArr (add_person [] ''Doe'' ''Jane'' None ''15.03.1990'')))
     ''p.json'' = Inr None"
  using add_without_zodiac_is_invalid
    [of "[]" "''Doe''" "''Jane''" None "''15.03.1990''"
        "\<lparr>home = ''/home/u'', cwd = ''/home/u'', encoding = UTF_8\<rparr>"
        "\<lparr>files = Map.empty, writes = [], stdout = []\<rparr>" "''p.json''"]
  by simp

end
